theory Spec2Isabelle
  imports Main "HOL-Library.Word"
begin

unbundle bit_operations_syntax

section \<open>Path-based authorization (libsvn\_repos/authz.c)\<close>

subsection \<open>Access rights\<close>

text \<open>
  Modelled from the spec: the enum \<open>svn_repos_authz_access_t\<close> is declared in
  \<open>svn_repos.h\<close>, which is not among the sources. The rights are a small bitset over
  read and write; \<open>recursive\<close> is a third bit that modifies a query and is never
  stored. The bits are combined with the C operators \<open>|\<close>, \<open>&\<close> and \<open>~\<close> on an
  int-sized value.
\<close>

type_synonym svn_repos_authz_access_t = "32 word"

definition svn_authz_none :: svn_repos_authz_access_t where
  "svn_authz_none = 0"

definition svn_authz_read :: svn_repos_authz_access_t where
  "svn_authz_read = 1"

definition svn_authz_write :: svn_repos_authz_access_t where
  "svn_authz_write = 2"

definition svn_authz_recursive :: svn_repos_authz_access_t where
  "svn_authz_recursive = 4"

subsection \<open>The configuration and the string helpers\<close>

text \<open>
  Modelled from the spec: \<open>svn_config_t\<close> and its accessors live in libsvn\_subr,
  which is not among the sources. A config is an ordered collection of sections, each a
  name with an ordered collection of (key, value) entries; a section is found by its
  name, an entry by its key.
\<close>

type_synonym svn_config_t = "(string \<times> (string \<times> string) list) list"

text \<open>
  Modelled from the spec: \<open>svn_config_enumerate2\<close> calls the visitor on every entry
  of the named section, in order, until the visitor answers FALSE. A section that does
  not exist has no entries. The baton is passed through.
\<close>

fun enumerate_entries ::
  "(string \<times> string) list \<Rightarrow> (string \<Rightarrow> string \<Rightarrow> 'b \<Rightarrow> bool \<times> 'b) \<Rightarrow> 'b \<Rightarrow> 'b" where
  "enumerate_entries [] callback baton = baton"
| "enumerate_entries ((name, val) # es) callback baton =
     (case callback name val baton of
        (True, baton') \<Rightarrow> enumerate_entries es callback baton'
      | (False, baton') \<Rightarrow> baton')"

definition svn_config_enumerate2 ::
  "svn_config_t \<Rightarrow> string \<Rightarrow> (string \<Rightarrow> string \<Rightarrow> 'b \<Rightarrow> bool \<times> 'b) \<Rightarrow> 'b \<Rightarrow> 'b" where
  "svn_config_enumerate2 cfg section callback baton =
     (case map_of cfg section of
        None \<Rightarrow> baton
      | Some es \<Rightarrow> enumerate_entries es callback baton)"

text \<open>
  Modelled from the spec: \<open>svn_config_enumerate_sections2\<close> calls the visitor with
  the name of every section, in the config's order, until the visitor answers FALSE.
\<close>

fun svn_config_enumerate_sections2 ::
  "svn_config_t \<Rightarrow> (string \<Rightarrow> 'b \<Rightarrow> bool \<times> 'b) \<Rightarrow> 'b \<Rightarrow> 'b" where
  "svn_config_enumerate_sections2 [] callback baton = baton"
| "svn_config_enumerate_sections2 ((name, es) # secs) callback baton =
     (case callback name baton of
        (True, baton') \<Rightarrow> svn_config_enumerate_sections2 secs callback baton'
      | (False, baton') \<Rightarrow> baton')"

text \<open>
  Modelled from the spec: \<open>svn_config_get\<close> with a NULL default is the spec's
  \<open>get(section, key)\<close>, an optional value.
\<close>

definition svn_config_get :: "svn_config_t \<Rightarrow> string \<Rightarrow> string \<Rightarrow> string option" where
  "svn_config_get cfg section option =
     (case map_of cfg section of
        None \<Rightarrow> None
      | Some es \<Rightarrow> map_of es option)"

text \<open>
  Modelled from the spec: \<open>svn_ctype_isspace\<close> is not among the sources; the spec
  only speaks of whitespace, taken here as the six ASCII whitespace characters.
\<close>

definition svn_ctype_isspace :: "char \<Rightarrow> bool" where
  "svn_ctype_isspace c =
     (c \<in> {CHR '' '', CHR 0x09, CHR 0x0A, CHR 0x0B, CHR 0x0C, CHR 0x0D})"

text \<open>
  Modelled from the spec: \<open>svn_cstring_split\<close> is not among the sources. The spec
  has a member list split on \<open>,\<close> and a section path tokenized on \<open>/\<close>, the
  tokenization tolerating runs of separators, and the path \<open>/\<close> addressing the root
  itself. So the input is cut at every separator character, each piece is stripped of
  surrounding whitespace when asked to, and empty pieces are not returned.
\<close>

fun split_at :: "string \<Rightarrow> string \<Rightarrow> string list" where
  "split_at seps [] = [[]]"
| "split_at seps (c # cs) =
     (if c \<in> set seps then [] # split_at seps cs
      else (case split_at seps cs of
              [] \<Rightarrow> [[c]]
            | t # ts \<Rightarrow> (c # t) # ts))"

definition chop_whitespace :: "string \<Rightarrow> string" where
  "chop_whitespace s =
     rev (dropWhile svn_ctype_isspace (rev (dropWhile svn_ctype_isspace s)))"

definition svn_cstring_split :: "string \<Rightarrow> string \<Rightarrow> bool \<Rightarrow> string list" where
  "svn_cstring_split input sep_chars chop =
     filter (\<lambda>t. t \<noteq> [])
       (map (\<lambda>t. if chop then chop_whitespace t else t) (split_at sep_chars input))"

subsection \<open>Users, aliases and groups\<close>

text \<open>
  The hash sets of strings are lists without repetition: \<open>set_add_string\<close> adds a
  key that is not yet there, and the order of the list is the order in which a hash
  iteration visits the keys.
\<close>

definition set_add_string :: "string list \<Rightarrow> string \<Rightarrow> string list" where
  "set_add_string s key = (if key \<in> set s then s else s @ [key])"

definition add_alias :: "string \<Rightarrow> string \<Rightarrow> string \<Rightarrow> string list \<Rightarrow> bool \<times> string list" where
  "add_alias user name val aliases =
     (if user = val then (True, set_add_string aliases (''&'' @ name))
      else (True, aliases))"

definition get_aliases :: "svn_config_t \<Rightarrow> string \<Rightarrow> string list" where
  "get_aliases config user =
     svn_config_enumerate2 config ''aliases'' (add_alias user) (set_add_string [] user)"

text \<open>
  The reverse membership map: from a member (a decorated group, or one of the user's
  names) to the decorated groups it is a direct member of, in the order found.
\<close>

type_synonym memberships_t = "(string \<times> string list) list"

definition push_membership :: "memberships_t \<Rightarrow> string \<Rightarrow> string \<Rightarrow> memberships_t" where
  "push_membership memberships member decorated_name =
     (case map_of memberships member of
        None \<Rightarrow> memberships @ [(member, [decorated_name])]
      | Some groups \<Rightarrow>
          map (\<lambda>(k, gs). if k = member then (k, gs @ [decorated_name]) else (k, gs)) memberships)"

fun add_group_members ::
  "string list \<Rightarrow> string \<Rightarrow> string list \<Rightarrow> memberships_t \<Rightarrow> memberships_t" where
  "add_group_members aliases name [] memberships = memberships"
| "add_group_members aliases name (member # members) memberships =
     (if (member \<noteq> [] \<and> hd member = CHR ''@'') \<or> member \<in> set aliases
      then add_group_members aliases name members
             (push_membership memberships member (''@'' @ name))
      else add_group_members aliases name members memberships)"

definition add_group ::
  "string list \<Rightarrow> string \<Rightarrow> string \<Rightarrow> memberships_t \<Rightarrow> bool \<times> memberships_t" where
  "add_group aliases name val memberships =
     (True, add_group_members aliases name (svn_cstring_split val '','' True) memberships)"

definition get_group_memberships :: "svn_config_t \<Rightarrow> string list \<Rightarrow> memberships_t" where
  "get_group_memberships config aliases =
     svn_config_enumerate2 config ''groups'' (add_group aliases) []"

text \<open>
  The inner loop of \<open>get_memberships\<close>: every group of the list that is not yet in
  the result is added to the result and pushed on \<open>to_follow\<close>.
\<close>

fun add_new_groups ::
  "string list \<Rightarrow> string list \<times> string list \<Rightarrow> string list \<times> string list" where
  "add_new_groups [] (result, to_follow) = (result, to_follow)"
| "add_new_groups (grp # nxt) (result, to_follow) =
     (if grp \<notin> set result
      then add_new_groups nxt (set_add_string result grp, to_follow @ [grp])
      else add_new_groups nxt (result, to_follow))"

definition all_groups :: "memberships_t \<Rightarrow> string set" where
  "all_groups memberships = set (concat (map snd memberships))"

lemma add_new_groups_measure:
  "set nxt \<subseteq> G \<Longrightarrow> finite G \<Longrightarrow> add_new_groups nxt (r, t) = (r', t') \<Longrightarrow>
   length t' + card (G - set r') = length t + card (G - set r)"
proof (induction nxt arbitrary: r t)
  case Nil
  then show ?case by simp
next
  case (Cons g gs)
  show ?case
  proof (cases "g \<in> set r")
    case True
    with Cons show ?thesis by simp
  next
    case False
    from Cons.prems have gG: "g \<in> G" by simp
    from False Cons.prems
    have step: "add_new_groups gs (r @ [g], t @ [g]) = (r', t')"
      by (simp add: set_add_string_def)
    have "length t' + card (G - set r') = length (t @ [g]) + card (G - set (r @ [g]))"
      using Cons.IH [OF _ Cons.prems(2) step] Cons.prems(1) by simp
    moreover have "G - set (r @ [g]) = (G - set r) - {g}" by auto
    moreover have "card ((G - set r) - {g}) = card (G - set r) - 1"
      using gG False Cons.prems(2) by simp
    moreover have "card (G - set r) > 0"
      using gG False Cons.prems(2) by (metis DiffI card_gt_0_iff empty_iff finite_Diff)
    ultimately show ?thesis by simp
  qed
qed

lemma map_of_all_groups:
  "map_of memberships name = Some nxt \<Longrightarrow> set nxt \<subseteq> all_groups memberships"
  by (force simp: all_groups_def dest!: map_of_SomeD)

text \<open>
  The outer loop of \<open>get_memberships\<close>: \<open>to_follow\<close> is read from the front while
  the inner loop appends to it. It ends because every name pushed is new to the result
  and is one of the finitely many groups of the membership map.
\<close>

function follow_memberships ::
  "memberships_t \<Rightarrow> string list \<Rightarrow> string list \<Rightarrow> string list" where
  "follow_memberships memberships [] result = result"
| "follow_memberships memberships (name # to_follow) result =
     (case map_of memberships name of
        None \<Rightarrow> follow_memberships memberships to_follow result
      | Some nxt \<Rightarrow>
          (case add_new_groups nxt (result, to_follow) of
             (result', to_follow') \<Rightarrow> follow_memberships memberships to_follow' result'))"
  by pat_completeness auto
termination
proof (relation "measure (\<lambda>(m, t, r). length t + card (all_groups m - set r))")
  fix memberships :: memberships_t and name to_follow result nxt r' t'
  assume m: "map_of memberships name = Some nxt"
    and x: "(r', t') = add_new_groups nxt (result, to_follow)"
  have fin: "finite (all_groups memberships)" by (simp add: all_groups_def)
  have "length t' + card (all_groups memberships - set r')
      = length to_follow + card (all_groups memberships - set result)"
    by (rule add_new_groups_measure [OF map_of_all_groups [OF m] fin x [symmetric]])
  then show "((memberships, t', r'), (memberships, name # to_follow, result))
        \<in> measure (\<lambda>(m, t, r). length t + card (all_groups m - set r))"
    by simp
qed simp_all

fun get_memberships :: "svn_config_t \<Rightarrow> string option \<Rightarrow> string list" where
  "get_memberships config None =
     set_add_string (set_add_string [] ''*'') ''$anonymous''"
| "get_memberships config (Some user) =
     (let result = get_aliases config user;
          memberships = get_group_memberships config result;
          result = follow_memberships memberships result result
      in set_add_string (set_add_string result ''*'') ''$authenticated'')"

subsection \<open>Constructing the prefix tree\<close>

record access_t =
  rights :: svn_repos_authz_access_t

text \<open>
  A node of the prefix tree. \<open>access\<close> is a pointer that may be NULL, and so is the
  hash \<open>sub_nodes\<close>, whose keys are the segments of the nodes it holds.
\<close>

datatype node_t =
  Node (segment: string)
       (access: "access_t option")
       (min_rights: svn_repos_authz_access_t)
       (max_rights: svn_repos_authz_access_t)
       (sub_nodes: "node_t list option")

record process_rule_baton_t =
  found :: bool
  baton_access :: svn_repos_authz_access_t

text \<open>
  \<open>process_rule\<close>: the baton's \<open>memberships\<close> field is only read, so it is an
  argument here.
\<close>

definition process_rule ::
  "string list \<Rightarrow> string \<Rightarrow> string \<Rightarrow> process_rule_baton_t \<Rightarrow> bool \<times> process_rule_baton_t" where
  "process_rule memberships name val baton =
     (let inverted = (name \<noteq> [] \<and> hd name = CHR ''~'');
          name = (if inverted then tl name else name)
      in if inverted = (name \<notin> set memberships)
         then (True, baton\<lparr>found := True,
                 baton_access := baton_access baton
                   OR ((if CHR ''r'' \<in> set val then svn_authz_read else svn_authz_none)
                       OR (if CHR ''w'' \<in> set val then svn_authz_write else svn_authz_none))\<rparr>)
         else (True, baton))"

text \<open>
  \<open>has_matching_rule\<close> returns whether a rule was found and writes \<open>*access\<close> only
  then: the result is the rights written, if any.
\<close>

definition has_matching_rule ::
  "svn_config_t \<Rightarrow> string \<Rightarrow> string list \<Rightarrow> svn_repos_authz_access_t option" where
  "has_matching_rule config section memberships =
     (let baton = svn_config_enumerate2 config section (process_rule memberships)
                    \<lparr>found = False, baton_access = svn_authz_none\<rparr>
      in if found baton then Some (baton_access baton) else None)"

definition create_node :: "string \<Rightarrow> node_t" where
  "create_node seg = Node seg None 0 0 None"

text \<open>
  \<open>insert_path\<close>: the segments end with the NULL sentinel in the source, with the end
  of the list here. The \<open>assert\<close> at the leaf aborts the process: the result is
  \<open>None\<close> then. A sub-node that is found is updated in place, a new one is added to
  the hash.
\<close>

fun insert_path :: "node_t \<Rightarrow> string list \<Rightarrow> access_t \<Rightarrow> node_t option" where
  "insert_path (Node seg acc mn mx subs) [] a =
     (if acc \<noteq> None then None else Some (Node seg (Some a) mn mx subs))"
| "insert_path (Node seg acc mn mx subs) (s # segments) a =
     (let nodes = (case subs of None \<Rightarrow> [] | Some ns \<Rightarrow> ns)
      in case find (\<lambda>n. segment n = s) nodes of
           Some sub_node \<Rightarrow>
             (case insert_path sub_node segments a of
                None \<Rightarrow> None
              | Some sub_node' \<Rightarrow>
                  Some (Node seg acc mn mx
                    (Some (map (\<lambda>n. if segment n = s then sub_node' else n) nodes))))
         | None \<Rightarrow>
             (case insert_path (create_node s) segments a of
                None \<Rightarrow> None
              | Some sub_node' \<Rightarrow> Some (Node seg acc mn mx (Some (nodes @ [sub_node'])))))"

text \<open>
  \<open>process_path_rule\<close>: of the baton, the config, the repository and the memberships
  are only read and are arguments here; the root of the tree is the state that is passed
  on, \<open>None\<close> once the process has aborted, which also ends the enumeration.
\<close>

definition process_path_rule ::
  "svn_config_t \<Rightarrow> string \<Rightarrow> string list \<Rightarrow> string \<Rightarrow> node_t option \<Rightarrow> bool \<times> node_t option" where
  "process_path_rule config repository memberships name baton =
     (case baton of
        None \<Rightarrow> (False, None)
      | Some root \<Rightarrow>
     (let colon_pos = dropWhile (\<lambda>c. c \<noteq> CHR '':'') name;
          prefix_len = length (takeWhile (\<lambda>c. c \<noteq> CHR '':'') name)
      in if colon_pos \<noteq> [] \<and>
            (prefix_len \<noteq> length repository \<or> take (length repository) name \<noteq> repository)
         then (True, Some root)
         else
           (let path = (if colon_pos \<noteq> [] then tl colon_pos else name)
            in if path = [] \<or> hd path \<noteq> CHR ''/'' then (True, Some root)
               else
                 (case has_matching_rule config name memberships of
                    None \<Rightarrow> (True, Some root)
                  | Some r \<Rightarrow>
                      (case insert_path root (svn_cstring_split path ''/'' False) \<lparr>rights = r\<rparr> of
                         None \<Rightarrow> (False, None)
                       | Some root' \<Rightarrow> (True, Some root'))))))"

text \<open>
  \<open>finalize_tree\<close> writes the min and max rights of the node, lets every sub-node
  add its own to them, and then adds them to the parent's. The parent's pair is passed
  in and returned; the loop over the hash of sub-nodes is \<open>finalize_sub_nodes\<close>.
\<close>

fun finalize_tree ::
  "svn_repos_authz_access_t \<times> svn_repos_authz_access_t \<Rightarrow> access_t \<Rightarrow> node_t
   \<Rightarrow> (svn_repos_authz_access_t \<times> svn_repos_authz_access_t) \<times> node_t"
and finalize_sub_nodes ::
  "svn_repos_authz_access_t \<times> svn_repos_authz_access_t \<Rightarrow> access_t \<Rightarrow> node_t list
   \<Rightarrow> (svn_repos_authz_access_t \<times> svn_repos_authz_access_t) \<times> node_t list" where
  "finalize_tree (pmin, pmax) inherited_access (Node seg acc mn mx subs) =
     (let a = (case acc of Some a' \<Rightarrow> a' | None \<Rightarrow> inherited_access);
          ((mn', mx'), subs') =
            (case subs of
               None \<Rightarrow> ((rights a, rights a), None)
             | Some ns \<Rightarrow>
                 (case finalize_sub_nodes (rights a, rights a) a ns of
                    (mm, ns') \<Rightarrow> (mm, Some ns')))
      in ((pmin AND mn', pmax OR mx'), Node seg acc mn' mx' subs'))"
| "finalize_sub_nodes mm a [] = (mm, [])"
| "finalize_sub_nodes mm a (n # ns) =
     (case finalize_tree mm a n of
        (mm', n') \<Rightarrow>
          (case finalize_sub_nodes mm' a ns of
             (mm'', ns') \<Rightarrow> (mm'', n' # ns')))"

text \<open>
  \<open>create_user_authz\<close>. The root is finalized as its own parent: the last two
  assignments of \<open>finalize_tree\<close> then combine the root's rights with themselves.
\<close>

definition create_user_authz ::
  "svn_config_t \<Rightarrow> string \<Rightarrow> string option \<Rightarrow> node_t option" where
  "create_user_authz config repository user =
     (let memberships = get_memberships config user
      in case svn_config_enumerate_sections2 config
                (process_path_rule config repository memberships) (Some (create_node [])) of
           None \<Rightarrow> None
         | Some root \<Rightarrow>
             (let a = (case access root of
                         None \<Rightarrow> \<lparr>rights = svn_authz_none\<rparr>
                       | Some a' \<Rightarrow> a');
                  root = Node (segment root) (Some a) (min_rights root) (max_rights root)
                           (sub_nodes root)
              in case finalize_tree (min_rights root, max_rights root) a root of
                   (mm, Node seg acc mn mx subs) \<Rightarrow>
                     Some (Node seg acc (mn AND mn) (mx OR mx) subs)))"

subsection \<open>Lookup\<close>

text \<open>
  \<open>next_segment\<close> returns the segment up to the first \<open>/\<close> and the rest of the
  path behind the run of separators that follows it, or NULL for the rest when the path
  has no separator.
\<close>

definition next_segment :: "string \<Rightarrow> string \<times> string option" where
  "next_segment path =
     (let seg = takeWhile (\<lambda>c. c \<noteq> CHR ''/'') path;
          rest = dropWhile (\<lambda>c. c \<noteq> CHR ''/'') path
      in if rest = [] then (seg, None)
         else (seg, Some (dropWhile (\<lambda>c. c = CHR ''/'') (tl rest))))"

lemma next_segment_shorter:
  "next_segment p = (seg, Some r) \<Longrightarrow> length r < length p"
proof -
  assume a: "next_segment p = (seg, Some r)"
  let ?rest = "dropWhile (\<lambda>c. c \<noteq> CHR ''/'') p"
  from a have ne: "?rest \<noteq> []" and r: "r = dropWhile (\<lambda>c. c = CHR ''/'') (tl ?rest)"
    by (auto simp: next_segment_def Let_def split: if_splits)
  have "length r \<le> length (tl ?rest)"
    unfolding r by (rule length_dropWhile_le)
  also have "\<dots> < length ?rest" using ne by (cases ?rest) simp_all
  also have "\<dots> \<le> length p" by (rule length_dropWhile_le)
  finally show ?thesis .
qed

text \<open>
  The loop of \<open>lookup\<close> with the decision behind it. The result is \<open>None\<close> where
  the source would read \<open>access->rights\<close> through a NULL pointer.
\<close>

function lookup_walk ::
  "node_t option \<Rightarrow> string option \<Rightarrow> access_t option \<Rightarrow> svn_repos_authz_access_t \<Rightarrow>
   svn_repos_authz_access_t \<Rightarrow> svn_repos_authz_access_t \<Rightarrow> bool \<Rightarrow> bool option" where
  "lookup_walk current path acc mn mx required recursive =
     (case (current, path) of
        (Some cur, Some p) \<Rightarrow>
          (case next_segment p of
             (seg, path') \<Rightarrow>
               if (mx AND required) \<noteq> required then Some False
               else if (mn AND required) = required then Some True
               else if (mn AND required) = (mx AND required)
                 then Some ((mn AND required) = required)
               else
                 (case sub_nodes cur of
                    Some subs \<Rightarrow>
                      (case find (\<lambda>n. segment n = seg) subs of
                         Some nxt \<Rightarrow>
                           lookup_walk (Some nxt) path'
                             (case access nxt of Some a \<Rightarrow> Some a | None \<Rightarrow> acc)
                             (min_rights nxt) (max_rights nxt) required recursive
                       | None \<Rightarrow>
                           (case acc of
                              None \<Rightarrow> None
                            | Some a \<Rightarrow>
                                lookup_walk None path' acc (rights a) (rights a)
                                  required recursive))
                  | None \<Rightarrow> lookup_walk None path' acc mn mx required recursive))
      | _ \<Rightarrow>
          if recursive then Some ((mn AND required) = required)
          else (case acc of
                  None \<Rightarrow> None
                | Some a \<Rightarrow> Some ((rights a AND required) = required)))"
  by pat_completeness auto
termination
  by (relation "measure (\<lambda>(current, path, acc, mn, mx, required, recursive).
                   case path of None \<Rightarrow> 0 | Some p \<Rightarrow> Suc (length p))")
     (auto split: option.splits dest: next_segment_shorter [OF sym])

declare lookup_walk.simps [simp del]

definition lookup ::
  "node_t \<Rightarrow> string \<Rightarrow> svn_repos_authz_access_t \<Rightarrow> bool \<Rightarrow> bool option" where
  "lookup root path required recursive =
     (let path = rev (dropWhile (\<lambda>c. c = CHR ''/'') (rev path));
          path = dropWhile (\<lambda>c. c = CHR ''/'') path
      in lookup_walk (Some root) (Some path) (access root) (min_rights root) (max_rights root)
           required recursive)"

subsection \<open>Validating the authz file\<close>

datatype svn_errno = SVN_ERR_AUTHZ_INVALID_CONFIG | SVN_ERR_ASSERTION_FAIL

text \<open>The messages of the errors, with the names they are formatted with.\<close>

datatype authz_message =
    Undefined_group string
  | Circular_dependency string string
  | Undefined_alias string
  | Double_inversion string
  | Never_matches
  | Unrecognized_token string
  | Bad_character char string
  | Non_canonical_fspath string string
  | Assertion_failed

datatype svn_error_t = Svn_error (apr_err: svn_errno) (message: authz_message)

text \<open>
  \<open>authz_group_walk\<close> recurses through the groups with the hash of checked groups
  as shared state: the hash is passed in and returned. The recursion is bounded by
  fuel, one unit for every call; the result is \<open>None\<close> when the fuel is used up.
  \<open>authz_group_walk_list\<close> is the loop over the members of the group.
\<close>

fun authz_group_walk ::
  "nat \<Rightarrow> svn_config_t \<Rightarrow> string \<Rightarrow> string set \<Rightarrow> (svn_error_t + string set) option"
and authz_group_walk_list ::
  "nat \<Rightarrow> svn_config_t \<Rightarrow> string \<Rightarrow> string list \<Rightarrow> string set
   \<Rightarrow> (svn_error_t + string set) option" where
  "authz_group_walk 0 cfg grp checked_groups = None"
| "authz_group_walk (Suc fuel) cfg grp checked_groups =
     (case svn_config_get cfg ''groups'' grp of
        None \<Rightarrow> Some (Inl (Svn_error SVN_ERR_AUTHZ_INVALID_CONFIG (Undefined_group grp)))
      | Some val \<Rightarrow>
          authz_group_walk_list fuel cfg grp (svn_cstring_split val '','' True) checked_groups)"
| "authz_group_walk_list fuel cfg grp [] checked_groups = Some (Inr checked_groups)"
| "authz_group_walk_list fuel cfg grp (group_user # members) checked_groups =
     (if group_user \<noteq> [] \<and> hd group_user = CHR ''@'' then
        (if tl group_user \<in> checked_groups
         then Some (Inl (Svn_error SVN_ERR_AUTHZ_INVALID_CONFIG
                      (Circular_dependency (tl group_user) grp)))
         else
           (case authz_group_walk fuel cfg (tl group_user)
                   (insert (tl group_user) checked_groups) of
              None \<Rightarrow> None
            | Some (Inl e) \<Rightarrow> Some (Inl e)
            | Some (Inr checked_groups') \<Rightarrow>
                authz_group_walk_list fuel cfg grp members
                  (checked_groups' - {tl group_user})))
      else if group_user \<noteq> [] \<and> hd group_user = CHR ''&'' then
        (case svn_config_get cfg ''aliases'' (tl group_user) of
           None \<Rightarrow> Some (Inl (Svn_error SVN_ERR_AUTHZ_INVALID_CONFIG
                          (Undefined_alias (tl group_user))))
         | Some alias \<Rightarrow> authz_group_walk_list fuel cfg grp members checked_groups)
      else authz_group_walk_list fuel cfg grp members checked_groups)"

text \<open>
  The baton of the validation: the config is only read and is an argument of the
  callbacks; \<open>err\<close> is the error thrown out of the enumerator, and \<open>out_of_fuel\<close>
  records that a group walk did not come to an end.
\<close>

record authz_validate_baton =
  err :: "svn_error_t option"
  out_of_fuel :: bool

definition authz_validate_rule ::
  "svn_config_t \<Rightarrow> string \<Rightarrow> string \<Rightarrow> authz_validate_baton \<Rightarrow> bool \<times> authz_validate_baton" where
  "authz_validate_rule config rule_match_string val b =
     (let inverted = (rule_match_string \<noteq> [] \<and> hd rule_match_string = CHR ''~'');
          match = (if inverted then tl rule_match_string else rule_match_string)
      in if inverted \<and> match \<noteq> [] \<and> hd match = CHR ''~''
         then (False, b\<lparr>err := Some (Svn_error SVN_ERR_AUTHZ_INVALID_CONFIG
                                 (Double_inversion rule_match_string))\<rparr>)
         else if inverted \<and> match = ''*''
         then (False, b\<lparr>err := Some (Svn_error SVN_ERR_AUTHZ_INVALID_CONFIG Never_matches)\<rparr>)
         else if match \<noteq> [] \<and> hd match = CHR ''@''
                 \<and> svn_config_get config ''groups'' (tl match) = None
         then (False, b\<lparr>err := Some (Svn_error SVN_ERR_AUTHZ_INVALID_CONFIG
                                 (Undefined_group rule_match_string))\<rparr>)
         else if match \<noteq> [] \<and> hd match = CHR ''&''
                 \<and> svn_config_get config ''aliases'' (tl match) = None
         then (False, b\<lparr>err := Some (Svn_error SVN_ERR_AUTHZ_INVALID_CONFIG
                                 (Undefined_alias rule_match_string))\<rparr>)
         else if match \<noteq> [] \<and> hd match = CHR ''$''
                 \<and> tl match \<noteq> ''anonymous'' \<and> tl match \<noteq> ''authenticated''
         then (False, b\<lparr>err := Some (Svn_error SVN_ERR_AUTHZ_INVALID_CONFIG
                                 (Unrecognized_token rule_match_string))\<rparr>)
         else
           (case find (\<lambda>c. c \<noteq> CHR ''r'' \<and> c \<noteq> CHR ''w'' \<and> \<not> svn_ctype_isspace c) val of
              Some c \<Rightarrow>
                (False, b\<lparr>err := Some (Svn_error SVN_ERR_AUTHZ_INVALID_CONFIG
                                  (Bad_character c rule_match_string))\<rparr>)
            | None \<Rightarrow> (True, b)))"

definition authz_validate_alias ::
  "string \<Rightarrow> string \<Rightarrow> authz_validate_baton \<Rightarrow> bool \<times> authz_validate_baton" where
  "authz_validate_alias alias val b = (True, b)"

definition authz_validate_group ::
  "nat \<Rightarrow> svn_config_t \<Rightarrow> string \<Rightarrow> string \<Rightarrow> authz_validate_baton
   \<Rightarrow> bool \<times> authz_validate_baton" where
  "authz_validate_group fuel config grp val b =
     (case authz_group_walk fuel config grp {} of
        None \<Rightarrow> (False, b\<lparr>out_of_fuel := True\<rparr>)
      | Some (Inl e) \<Rightarrow> (False, b\<lparr>err := Some e\<rparr>)
      | Some (Inr checked_groups) \<Rightarrow> (True, b\<lparr>err := None\<rparr>))"

text \<open>
  Modelled from the spec: \<open>svn_fspath__is_canonical\<close> is not among the sources. The
  path of a section begins with \<open>/\<close> and is canonical: no \<open>.\<close> or \<open>..\<close> component,
  no redundant \<open>/\<close>, no trailing \<open>/\<close> except for the root.
\<close>

definition svn_fspath__is_canonical :: "string \<Rightarrow> bool" where
  "svn_fspath__is_canonical fspath =
     (fspath \<noteq> [] \<and> hd fspath = CHR ''/'' \<and>
      (fspath = ''/'' \<or>
       (let components = split_at ''/'' (tl fspath)
        in [] \<notin> set components \<and> ''.'' \<notin> set components \<and> ''..'' \<notin> set components)))"

definition authz_validate_section ::
  "nat \<Rightarrow> svn_config_t \<Rightarrow> string \<Rightarrow> authz_validate_baton \<Rightarrow> bool \<times> authz_validate_baton" where
  "authz_validate_section fuel config name b =
     (if name = ''groups'' then
        (let b = svn_config_enumerate2 config name (authz_validate_group fuel config) b
         in (err b = None \<and> \<not> out_of_fuel b, b))
      else if name = ''aliases'' then
        (let b = svn_config_enumerate2 config name authz_validate_alias b
         in (err b = None \<and> \<not> out_of_fuel b, b))
      else
        (let colon_pos = dropWhile (\<lambda>c. c \<noteq> CHR '':'') name;
             fspath = (if colon_pos \<noteq> [] then tl colon_pos else name)
         in if \<not> svn_fspath__is_canonical fspath
            then (False, b\<lparr>err := Some (Svn_error SVN_ERR_AUTHZ_INVALID_CONFIG
                                    (Non_canonical_fspath name fspath))\<rparr>)
            else
              (let b = svn_config_enumerate2 config name (authz_validate_rule config) b
               in (err b = None \<and> \<not> out_of_fuel b, b))))"

text \<open>
  \<open>svn_repos__authz_config_validate\<close>: \<open>Inr ()\<close> is \<open>SVN_NO_ERROR\<close>, and the
  result is \<open>None\<close> when the fuel did not suffice.
\<close>

definition svn_repos__authz_config_validate ::
  "nat \<Rightarrow> svn_config_t \<Rightarrow> (svn_error_t + unit) option" where
  "svn_repos__authz_config_validate fuel config =
     (let baton = svn_config_enumerate_sections2 config (authz_validate_section fuel config)
                    \<lparr>err = None, out_of_fuel = False\<rparr>
      in if out_of_fuel baton then None
         else (case err baton of
                 Some e \<Rightarrow> Some (Inl e)
               | None \<Rightarrow> Some (Inr ())))"

subsection \<open>The public check\<close>

record svn_authz_t =
  cfg :: svn_config_t

text \<open>
  \<open>svn_repos_authz_check_access\<close>: the result is the error returned or the value
  written to \<open>*access_granted\<close>; \<open>None\<close> stands for a process that has aborted.
  \<open>SVN_ERR_ASSERT\<close> returns an assertion failure without writing the result.
\<close>

definition svn_repos_authz_check_access ::
  "svn_authz_t \<Rightarrow> string option \<Rightarrow> string option \<Rightarrow> string option \<Rightarrow>
   svn_repos_authz_access_t \<Rightarrow> (svn_error_t + bool) option" where
  "svn_repos_authz_check_access authz repos_name path user required_access =
     (let repos_name = (case repos_name of None \<Rightarrow> [] | Some r \<Rightarrow> r)
      in case create_user_authz (cfg authz) repos_name user of
           None \<Rightarrow> None
         | Some root \<Rightarrow>
             (case path of
                None \<Rightarrow>
                  (let required = required_access AND NOT svn_authz_recursive
                   in Some (Inr ((max_rights root AND required) = required)))
              | Some p \<Rightarrow>
                  if \<not> (p \<noteq> [] \<and> hd p = CHR ''/'')
                  then Some (Inl (Svn_error SVN_ERR_ASSERTION_FAIL Assertion_failed))
                  else map_option Inr
                         (lookup root (tl p) (required_access AND NOT svn_authz_recursive)
                            ((required_access AND svn_authz_recursive) \<noteq> 0))))"

subsection \<open>Notions of the specification\<close>

text \<open>
  A name of the identity set of a user is decorated when it is the user's own name, or
  begins with the \<open>&\<close> of an alias or the \<open>@\<close> of a group.
\<close>

definition decorated :: "string \<Rightarrow> string \<Rightarrow> bool" where
  "decorated user x = (x = user \<or> (x \<noteq> [] \<and> (hd x = CHR ''&'' \<or> hd x = CHR ''@'')))"

text \<open>
  The collapse of one path-rule section against an identity set, in the words of the
  specification: the key of an entry loses one leading \<open>~\<close>, which inverts the
  membership test; an entry applies when membership and inversion differ; the
  entries that apply contribute read for an \<open>r\<close> and write for a \<open>w\<close> in the value;
  the section yields the union of the contributions if an entry applies, and nothing
  otherwise.
\<close>

definition rule_applies :: "string list \<Rightarrow> string \<Rightarrow> bool" where
  "rule_applies identities key =
     (let inverted = (key \<noteq> [] \<and> hd key = CHR ''~'');
          subject = (if inverted then tl key else key)
      in (subject \<in> set identities) \<noteq> inverted)"

definition rule_rights :: "string \<Rightarrow> svn_repos_authz_access_t" where
  "rule_rights val =
     (if CHR ''r'' \<in> set val then svn_authz_read else svn_authz_none)
     OR (if CHR ''w'' \<in> set val then svn_authz_write else svn_authz_none)"

definition collapse_section ::
  "string list \<Rightarrow> (string \<times> string) list \<Rightarrow> svn_repos_authz_access_t option" where
  "collapse_section identities entries =
     (let matching = filter (\<lambda>(key, val). rule_applies identities key) entries
      in if matching = [] then None
         else Some (foldr (\<lambda>(key, val) acc. rule_rights val OR acc) matching svn_authz_none))"

text \<open>
  An access value is a set of flags when it has no bit beyond read, write and recursive.
\<close>

definition access_flags_only :: "svn_repos_authz_access_t \<Rightarrow> bool" where
  "access_flags_only a =
     (a AND NOT (svn_authz_read OR svn_authz_write OR svn_authz_recursive) = 0)"

text \<open>
  A section is a path rule when the part of its name behind the first \<open>:\<close>, or the
  whole name when it has none, begins with \<open>/\<close>. A config has no rules when its path
  rules have no entries.
\<close>

definition is_path_rule :: "string \<Rightarrow> bool" where
  "is_path_rule name =
     (let colon_pos = dropWhile (\<lambda>c. c \<noteq> CHR '':'') name;
          path = (if colon_pos \<noteq> [] then tl colon_pos else name)
      in path \<noteq> [] \<and> hd path = CHR ''/'')"

definition no_rules :: "svn_config_t \<Rightarrow> bool" where
  "no_rules config = (\<forall>(name, entries) \<in> set config. is_path_rule name \<longrightarrow> entries = [])"

text \<open>
  One set of rights is within another when every bit of the first is a bit of the
  second.
\<close>

definition rights_subset ::
  "svn_repos_authz_access_t \<Rightarrow> svn_repos_authz_access_t \<Rightarrow> bool" where
  "rights_subset a b = (a AND b = a)"

text \<open>
  The nodes of a tree, each with its effective access: its own access record if it has
  one, and otherwise that of the nearest node above it that has one. The first
  argument is the effective access of the parent.
\<close>

fun effective_nodes :: "access_t \<Rightarrow> node_t \<Rightarrow> (node_t \<times> access_t) list" where
  "effective_nodes inherited (Node seg acc mn mx None) =
     [(Node seg acc mn mx None, case acc of Some a \<Rightarrow> a | None \<Rightarrow> inherited)]"
| "effective_nodes inherited (Node seg acc mn mx (Some ns)) =
     (let e = (case acc of Some a \<Rightarrow> a | None \<Rightarrow> inherited)
      in (Node seg acc mn mx (Some ns), e) # concat (map (effective_nodes e) ns))"

text \<open>
  A node with its effective access is bounded when its minimal rights are within the
  effective rights and these within its maximal rights.
\<close>

definition node_bounded :: "node_t \<times> access_t \<Rightarrow> bool" where
  "node_bounded ne =
     (rights_subset (min_rights (fst ne)) (rights (snd ne)) \<and>
      rights_subset (rights (snd ne)) (max_rights (fst ne)))"

text \<open>
  The members of a group as \<open>authz_group_walk\<close> reads them, and the dependencies
  between groups: a group depends on the groups it has as \<open>@\<close> members. The groups
  section has a circular dependency when a group depends on itself through one or more
  steps.
\<close>

definition group_members :: "svn_config_t \<Rightarrow> string \<Rightarrow> string list" where
  "group_members config grp =
     (case svn_config_get config ''groups'' grp of
        None \<Rightarrow> []
      | Some val \<Rightarrow> svn_cstring_split val '','' True)"

definition member_edges :: "svn_config_t \<Rightarrow> (string \<times> string) set" where
  "member_edges config = {(g, h). CHR ''@'' # h \<in> set (group_members config g)}"

definition has_group_cycle :: "svn_config_t \<Rightarrow> bool" where
  "has_group_cycle config = (\<exists>g. (g, g) \<in> (member_edges config)\<^sup>+)"

text \<open>
  The fuel that the validation of a config needs at most: a walk never goes deeper
  than the number of groups the config defines, plus the call for a group that is not
  defined.
\<close>

definition group_fuel :: "svn_config_t \<Rightarrow> nat" where
  "group_fuel config =
     length (case map_of config ''groups'' of None \<Rightarrow> [] | Some es \<Rightarrow> es) + 2"

text \<open>
  The state of the baton that the callbacks of the validation keep up when the fuel
  suffices: no walk has run out of fuel, an error is an invalid-config error, and a
  circular dependency is reported for a group and a member of it that leads back to it.
\<close>

definition sound_baton :: "svn_config_t \<Rightarrow> authz_validate_baton \<Rightarrow> bool" where
  "sound_baton config b =
     (\<not> out_of_fuel b \<and>
      (\<forall>e. err b = Some e \<longrightarrow>
         apr_err e = SVN_ERR_AUTHZ_INVALID_CONFIG \<and>
         (\<forall>h g. message e = Circular_dependency h g \<longrightarrow>
            (g, h) \<in> member_edges config \<and> (h, g) \<in> (member_edges config)\<^sup>*)))"

text \<open>
  The groups section refers to nothing undefined when every \<open>@\<close> member of a group
  is a defined group and every \<open>&\<close> member a defined alias. The sections that the
  enumeration visits before the groups section are valid when each of them passes the
  validation on its own.
\<close>

definition references_defined :: "svn_config_t \<Rightarrow> bool" where
  "references_defined config =
     (\<forall>g m. m \<in> set (group_members config g) \<longrightarrow>
        (m \<noteq> [] \<and> hd m = CHR ''@'' \<longrightarrow> svn_config_get config ''groups'' (tl m) \<noteq> None) \<and>
        (m \<noteq> [] \<and> hd m = CHR ''&'' \<longrightarrow> svn_config_get config ''aliases'' (tl m) \<noteq> None))"

definition valid_before_groups :: "nat \<Rightarrow> svn_config_t \<Rightarrow> bool" where
  "valid_before_groups fuel config =
     (\<forall>(name, es) \<in> set (takeWhile (\<lambda>s. fst s \<noteq> ''groups'') config).
        authz_validate_section fuel config name \<lparr>err = None, out_of_fuel = False\<rparr>
          = (True, \<lparr>err = None, out_of_fuel = False\<rparr>))"

section \<open>Properties\<close>

subsection \<open>Enumerations and identity sets\<close>

lemma enumerate_entries_invariant:
  assumes "P baton" and "\<And>name val b. P b \<Longrightarrow> P (snd (callback name val b))"
  shows "P (enumerate_entries es callback baton)"
  using assms(1)
proof (induction es arbitrary: baton)
  case Nil
  then show ?case by simp
next
  case (Cons e es)
  obtain name val where e: "e = (name, val)" by (cases e)
  obtain continue b' where cb: "callback name val baton = (continue, b')"
    by (cases "callback name val baton")
  from assms(2) [OF Cons.prems, of name val] cb have "P b'" by simp
  with Cons.IH [of b'] e cb show ?case by (cases continue) simp_all
qed

lemma svn_config_enumerate2_invariant:
  assumes "P baton" and "\<And>name val b. P b \<Longrightarrow> P (snd (callback name val b))"
  shows "P (svn_config_enumerate2 config section callback baton)"
  unfolding svn_config_enumerate2_def
  using assms by (auto split: option.splits intro: enumerate_entries_invariant)

lemma get_aliases_decorated:
  "x \<in> set (get_aliases config user) \<Longrightarrow> decorated user x"
proof -
  have "\<forall>x \<in> set (get_aliases config user). decorated user x"
    unfolding get_aliases_def
    by (rule svn_config_enumerate2_invariant)
       (auto simp: set_add_string_def add_alias_def decorated_def)
  then show "x \<in> set (get_aliases config user) \<Longrightarrow> decorated user x" by blast
qed

lemma get_aliases_user: "user \<in> set (get_aliases config user)"
  unfolding get_aliases_def
  by (rule svn_config_enumerate2_invariant)
     (auto simp: set_add_string_def add_alias_def)

lemma all_groups_push_membership:
  "all_groups (push_membership m member d) = insert d (all_groups m)"
proof (cases "map_of m member")
  case None
  then show ?thesis by (auto simp: push_membership_def all_groups_def)
next
  case (Some gs)
  then have "member \<in> fst ` set m" by (metis domI dom_map_of_conv_image_fst)
  then show ?thesis using Some
    by (auto simp: push_membership_def all_groups_def split: if_splits)
qed


lemma add_group_members_groups:
  "all_groups (add_group_members aliases name members m) \<subseteq> insert (''@'' @ name) (all_groups m)"
proof (induction members arbitrary: m)
  case Nil
  then show ?case by auto
next
  case (Cons member members)
  show ?case
  proof (cases "(member \<noteq> [] \<and> hd member = CHR ''@'') \<or> member \<in> set aliases")
    case True
    then have "add_group_members aliases name (member # members) m
        = add_group_members aliases name members (push_membership m member (''@'' @ name))"
      by simp
    with Cons.IH [of "push_membership m member (''@'' @ name)"] show ?thesis
      by (simp add: all_groups_push_membership)
  next
    case False
    then have "add_group_members aliases name (member # members) m
        = add_group_members aliases name members m"
      by auto
    with Cons.IH [of m] show ?thesis by simp
  qed
qed

lemma get_group_memberships_groups:
  "x \<in> all_groups (get_group_memberships config aliases) \<Longrightarrow> x \<noteq> [] \<and> hd x = CHR ''@''"
proof -
  have "\<forall>x \<in> all_groups (get_group_memberships config aliases). x \<noteq> [] \<and> hd x = CHR ''@''"
    unfolding get_group_memberships_def
  proof (rule svn_config_enumerate2_invariant)
    show "\<forall>x\<in>all_groups []. x \<noteq> [] \<and> hd x = CHR ''@''" by (simp add: all_groups_def)
  next
    fix name val and b :: memberships_t
    assume "\<forall>x\<in>all_groups b. x \<noteq> [] \<and> hd x = CHR ''@''"
    then show "\<forall>x\<in>all_groups (snd (add_group aliases name val b)). x \<noteq> [] \<and> hd x = CHR ''@''"
      using add_group_members_groups [of aliases name "svn_cstring_split val '','' True" b]
      by (auto simp: add_group_def)
  qed
  then show "x \<in> all_groups (get_group_memberships config aliases) \<Longrightarrow> x \<noteq> [] \<and> hd x = CHR ''@''"
    by blast
qed

lemma add_new_groups_result:
  "add_new_groups nxt (r, t) = (r', t') \<Longrightarrow> set r \<subseteq> set r' \<and> set r' \<subseteq> set r \<union> set nxt"
proof (induction nxt arbitrary: r t)
  case Nil
  then show ?case by simp
next
  case (Cons g gs)
  show ?case
  proof (cases "g \<in> set r")
    case True
    with Cons show ?thesis by auto
  next
    case False
    with Cons.prems have "add_new_groups gs (r @ [g], t @ [g]) = (r', t')"
      by (simp add: set_add_string_def)
    from Cons.IH [OF this] show ?thesis by auto
  qed
qed

lemma follow_memberships_result:
  "set result \<subseteq> set (follow_memberships m to_follow result) \<and>
   set (follow_memberships m to_follow result) \<subseteq> set result \<union> all_groups m"
proof (induction m to_follow result rule: follow_memberships.induct)
  case (1 m result)
  then show ?case by simp
next
  case (2 m name to_follow result)
  show ?case
  proof (cases "map_of m name")
    case None
    with 2 show ?thesis by simp
  next
    case (Some nxt)
    obtain r' t' where a: "add_new_groups nxt (result, to_follow) = (r', t')"
      by (cases "add_new_groups nxt (result, to_follow)")
    from "2.IH"(2) [OF Some a [symmetric]]
    have ih: "set r' \<subseteq> set (follow_memberships m t' r')"
      "set (follow_memberships m t' r') \<subseteq> set r' \<union> all_groups m" by simp_all
    from add_new_groups_result [OF a] map_of_all_groups [OF Some]
    have "set result \<subseteq> set r'" "set r' \<subseteq> set result \<union> all_groups m" by auto
    with ih Some a show ?thesis by auto
  qed
qed

lemma set_set_add_string: "set (set_add_string s key) = insert key (set s)"
  by (auto simp: set_add_string_def)

lemma get_memberships_star: "''*'' \<in> set (get_memberships config user)"
  by (cases user) (simp_all add: set_set_add_string Let_def)

lemma get_memberships_user:
  "set (get_memberships config (Some user)) =
     insert ''$authenticated'' (insert ''*''
       (set (follow_memberships (get_group_memberships config (get_aliases config user))
               (get_aliases config user) (get_aliases config user))))"
  by (simp add: set_set_add_string Let_def)

lemma get_memberships_decorated:
  assumes "x \<in> set (get_memberships config (Some user))"
  shows "x = ''*'' \<or> x = ''$authenticated'' \<or> decorated user x"
proof -
  let ?al = "get_aliases config user"
  let ?m = "get_group_memberships config ?al"
  from assms consider "x = ''*''" | "x = ''$authenticated''"
    | "x \<in> set (follow_memberships ?m ?al ?al)"
    unfolding get_memberships_user by blast
  then show ?thesis
  proof cases
    case 3
    with follow_memberships_result [of ?al ?m ?al]
    have "x \<in> set ?al \<or> x \<in> all_groups ?m" by blast
    then show ?thesis
      using get_aliases_decorated [of x config user] get_group_memberships_groups [of x config ?al]
      by (auto simp: decorated_def)
  qed simp_all
qed

text \<open>
  Claim C5, as the code has it. The identity set of the anonymous user is exactly
  \<open>*\<close> and \<open>$anonymous\<close>, whatever the config. The identity set of a user \<open>U\<close>
  holds \<open>U\<close>, \<open>*\<close> and \<open>$authenticated\<close>; it holds \<open>$anonymous\<close> only when that
  string is the user's own name.
\<close>

theorem get_memberships_identity_set:
  "set (get_memberships config None) = {''*'', ''$anonymous''} \<and>
   user \<in> set (get_memberships config (Some user)) \<and>
   ''*'' \<in> set (get_memberships config (Some user)) \<and>
   ''$authenticated'' \<in> set (get_memberships config (Some user)) \<and>
   ((''$anonymous'' \<in> set (get_memberships config (Some user))) = (user = ''$anonymous''))"
proof -
  have anon: "set (get_memberships config None) = {''*'', ''$anonymous''}"
    by (auto simp: set_set_add_string)
  have u: "user \<in> set (get_memberships config (Some user))"
    unfolding get_memberships_user
    using follow_memberships_result
            [of "get_aliases config user" "get_group_memberships config (get_aliases config user)"
                "get_aliases config user"]
          get_aliases_user [of user config]
    by blast
  have a: "''$authenticated'' \<in> set (get_memberships config (Some user))"
    unfolding get_memberships_user by simp
  have "user = ''$anonymous''" if "''$anonymous'' \<in> set (get_memberships config (Some user))"
    using get_memberships_decorated [OF that] by (auto simp: decorated_def)
  with u have iff: "(''$anonymous'' \<in> set (get_memberships config (Some user))) = (user = ''$anonymous'')"
    by auto
  from anon u a iff get_memberships_star [of config "Some user"] show ?thesis by blast
qed

theorem get_memberships_identity_set_witness:
  "set (get_memberships [(''aliases'', [(''a1'', ''alice'')]), (''groups'', [(''devs'', ''&a1, bob'')])] None)
     = {''*'', ''$anonymous''} \<and>
   ''alice'' \<in> set (get_memberships [(''aliases'', [(''a1'', ''alice'')]), (''groups'', [(''devs'', ''&a1, bob'')])] (Some ''alice'')) \<and>
   ''$anonymous'' \<notin> set (get_memberships [(''aliases'', [(''a1'', ''alice'')]), (''groups'', [(''devs'', ''&a1, bob'')])] (Some ''alice''))"
  using get_memberships_identity_set
    [of "[(''aliases'', [(''a1'', ''alice'')]), (''groups'', [(''devs'', ''&a1, bob'')])]" "''alice''"]
  by simp

text \<open>
  The user name is added to the set as it comes: for the user named \<open>$anonymous\<close>
  the identity set of an authenticated user does hold \<open>$anonymous\<close>.
\<close>

theorem anonymous_name_counterexample:
  "''$anonymous'' \<in> set (get_memberships [] (Some ''$anonymous''))"
  by (simp add: set_add_string_def Let_def get_aliases_def get_group_memberships_def
        svn_config_enumerate2_def)

text \<open>
  Claim C10. An entry with the key \<open>~*\<close> leaves the baton of its section as it was, for
  every config and every user, anonymous or not: \<open>*\<close> is in every identity set, so the
  inverted test fails.
\<close>

theorem inverted_star_never_contributes:
  "process_rule (get_memberships config user) ''~*'' val baton = (True, baton)"
  using get_memberships_star [of config user] by (simp add: process_rule_def)

subsection \<open>Collapsing a section\<close>

lemma process_rule_applies:
  "process_rule identities key val baton =
     (if rule_applies identities key
      then (True, baton\<lparr>found := True,
                   baton_access := baton_access baton OR rule_rights val\<rparr>)
      else (True, baton))"
  by (auto simp: process_rule_def rule_applies_def rule_rights_def Let_def)

lemma enumerate_process_rule_step:
  "enumerate_entries ((key, val) # es) (process_rule identities) baton =
     enumerate_entries es (process_rule identities)
       (if rule_applies identities key
        then baton\<lparr>found := True, baton_access := baton_access baton OR rule_rights val\<rparr>
        else baton)"
  by (simp add: process_rule_applies)

lemma enumerate_process_rule_found:
  "found (enumerate_entries es (process_rule identities) baton) =
     (found baton \<or> filter (\<lambda>(key, val). rule_applies identities key) es \<noteq> [])"
proof (induction es arbitrary: baton)
  case Nil
  then show ?case by simp
next
  case (Cons e es)
  obtain key val where e: "e = (key, val)" by (cases e)
  show ?case unfolding e enumerate_process_rule_step
    by (simp add: Cons.IH)
qed

lemma enumerate_process_rule_access:
  "baton_access (enumerate_entries es (process_rule identities) baton) =
     baton_access baton OR
     foldr (\<lambda>(key, val) acc. rule_rights val OR acc)
       (filter (\<lambda>(key, val). rule_applies identities key) es) svn_authz_none"
proof (induction es arbitrary: baton)
  case Nil
  then show ?case by (simp add: svn_authz_none_def)
next
  case (Cons e es)
  obtain key val where e: "e = (key, val)" by (cases e)
  show ?case unfolding e enumerate_process_rule_step
    by (simp add: Cons.IH word_bw_assocs)
qed

text \<open>
  Claim C3. \<open>has_matching_rule\<close> computes the collapse of the section as the
  specification describes it: one leading \<open>~\<close> is stripped and inverts the test, an
  entry contributes the union of read (for \<open>r\<close>) and write (for \<open>w\<close>) exactly when
  membership and inversion differ, and the section yields rights if and only if an
  entry applies. An entry never takes rights away from the accumulator.
\<close>

theorem has_matching_rule_collapse:
  "has_matching_rule config section identities =
     (case map_of config section of
        None \<Rightarrow> None
      | Some entries \<Rightarrow> collapse_section identities entries) \<and>
   baton_access baton AND baton_access (snd (process_rule identities key val baton))
     = baton_access baton"
proof
  show "has_matching_rule config section identities =
     (case map_of config section of
        None \<Rightarrow> None
      | Some entries \<Rightarrow> collapse_section identities entries)"
    by (simp add: has_matching_rule_def svn_config_enumerate2_def collapse_section_def Let_def
          enumerate_process_rule_found enumerate_process_rule_access svn_authz_none_def
        split: option.splits)
  show "baton_access baton AND baton_access (snd (process_rule identities key val baton))
     = baton_access baton"
    by (simp add: process_rule_applies word_ao_absorbs)
qed

theorem has_matching_rule_collapse_witness:
  "has_matching_rule [(''/trunk'', [(''~bob'', ''r''), (''alice'', ''w''), (''carol'', ''rw'')])]
     ''/trunk'' [''alice'', ''*'', ''$authenticated''] = Some (svn_authz_read OR svn_authz_write) \<and>
   has_matching_rule [(''/trunk'', [(''~alice'', ''r''), (''carol'', ''rw'')])]
     ''/trunk'' [''alice'', ''*'', ''$authenticated''] = None"
  using has_matching_rule_collapse
          [of "[(''/trunk'', [(''~bob'', ''r''), (''alice'', ''w''), (''carol'', ''rw'')])]"
              "''/trunk''" "[''alice'', ''*'', ''$authenticated'']"]
        has_matching_rule_collapse
          [of "[(''/trunk'', [(''~alice'', ''r''), (''carol'', ''rw'')])]"
              "''/trunk''" "[''alice'', ''*'', ''$authenticated'']"]
  by (simp add: collapse_section_def rule_applies_def rule_rights_def svn_authz_none_def
        svn_authz_read_def svn_authz_write_def)

subsection \<open>Repository scoping\<close>

lemma dropWhile_colon_iff:
  "(dropWhile (\<lambda>c. c \<noteq> CHR '':'') name \<noteq> []) = (CHR '':'' \<in> set name)"
  by (induction name) auto

text \<open>
  Claim C6, as the code has it. A section whose name has a \<open>:\<close> and whose prefix
  before the first \<open>:\<close> differs from the repository leaves the tree as it was. A call
  without a repository name is the call with the empty name; the sections that change
  the tree then have no \<open>:\<close> in their name, or nothing before the first \<open>:\<close>.
\<close>

theorem process_path_rule_repository:
  "(CHR '':'' \<in> set name \<and> takeWhile (\<lambda>c. c \<noteq> CHR '':'') name \<noteq> repository \<longrightarrow>
      process_path_rule config repository memberships name (Some root) = (True, Some root)) \<and>
   svn_repos_authz_check_access authz None path user required_access =
     svn_repos_authz_check_access authz (Some []) path user required_access \<and>
   (process_path_rule config [] memberships name (Some root) \<noteq> (True, Some root) \<longrightarrow>
      CHR '':'' \<notin> set name \<or> takeWhile (\<lambda>c. c \<noteq> CHR '':'') name = [])"
proof (intro conjI impI)
  assume a: "CHR '':'' \<in> set name \<and> takeWhile (\<lambda>c. c \<noteq> CHR '':'') name \<noteq> repository"
  let ?pre = "takeWhile (\<lambda>c. c \<noteq> CHR '':'') name"
  have "length ?pre \<noteq> length repository \<or> take (length repository) name \<noteq> repository"
  proof (rule ccontr)
    assume "\<not> ?thesis"
    then have l: "length ?pre = length repository" and t: "take (length repository) name = repository"
      by auto
    have "take (length ?pre) name = ?pre"
      by (metis append_eq_conv_conj takeWhile_dropWhile_id)
    with l t a show False by simp
  qed
  with a show "process_path_rule config repository memberships name (Some root) = (True, Some root)"
    by (simp add: process_path_rule_def Let_def dropWhile_colon_iff)
next
  show "svn_repos_authz_check_access authz None path user required_access =
     svn_repos_authz_check_access authz (Some []) path user required_access"
    by (simp add: svn_repos_authz_check_access_def)
next
  assume a: "process_path_rule config [] memberships name (Some root) \<noteq> (True, Some root)"
  show "CHR '':'' \<notin> set name \<or> takeWhile (\<lambda>c. c \<noteq> CHR '':'') name = []"
  proof (rule ccontr)
    assume "\<not> ?thesis"
    then have "process_path_rule config [] memberships name (Some root) = (True, Some root)"
      by (simp add: process_path_rule_def Let_def dropWhile_colon_iff)
    with a show False by simp
  qed
qed

theorem process_path_rule_repository_witness:
  "CHR '':'' \<in> set ''repoB:/'' \<and> takeWhile (\<lambda>c. c \<noteq> CHR '':'') ''repoB:/'' \<noteq> ''repoA'' \<and>
   process_path_rule [(''repoA:/'', [(''alice'', ''rw'')]), (''repoB:/'', [(''alice'', '''')])]
       ''repoA'' [''alice'', ''*'', ''$authenticated''] ''repoB:/'' (Some (create_node []))
     = (True, Some (create_node [])) \<and>
   process_path_rule [(''/a'', [(''*'', ''r'')])] [] [''*'', ''$anonymous''] ''/a''
       (Some (create_node [])) \<noteq> (True, Some (create_node [])) \<and>
   CHR '':'' \<notin> set ''/a''"
  using process_path_rule_repository
          [of "''repoB:/''" "''repoA''"
              "[(''repoA:/'', [(''alice'', ''rw'')]), (''repoB:/'', [(''alice'', '''')])]"
              "[''alice'', ''*'', ''$authenticated'']" "create_node []"]
  by (simp add: process_path_rule_def has_matching_rule_def svn_config_enumerate2_def
        process_rule_def svn_cstring_split_def create_node_def Let_def)

text \<open>
  A section named \<open>:/a\<close> has an (empty) repository prefix, and it applies when the
  caller passes no repository name: it grants the anonymous user read access to
  \<open>/a\<close>, which the empty config does not.
\<close>

theorem empty_prefix_counterexample:
  "CHR '':'' \<in> set '':/a'' \<and>
   svn_repos_authz_check_access \<lparr>cfg = [('':/a'', [(''*'', ''r'')])]\<rparr> None (Some ''/a'') None
     svn_authz_read = Some (Inr True) \<and>
   svn_repos_authz_check_access \<lparr>cfg = []\<rparr> None (Some ''/a'') None
     svn_authz_read = Some (Inr False)"
  by (simp add: svn_repos_authz_check_access_def create_user_authz_def process_path_rule_def
        has_matching_rule_def svn_config_enumerate2_def process_rule_def svn_cstring_split_def
        create_node_def lookup_def lookup_walk.simps next_segment_def set_add_string_def Let_def
        svn_authz_read_def svn_authz_none_def svn_authz_write_def svn_authz_recursive_def)

subsection \<open>The empty requirement\<close>

lemma lookup_walk_none_required:
  "lookup_walk (Some cur) (Some p) acc mn mx 0 recursive = Some True"
  by (subst lookup_walk.simps) (simp split: prod.splits)

lemma lookup_none_required: "lookup root path 0 recursive = Some True"
  by (simp add: lookup_def Let_def lookup_walk_none_required)

lemma no_read_no_write:
  assumes "access_flags_only a" "a AND svn_authz_read = 0" "a AND svn_authz_write = 0"
  shows "a AND NOT svn_authz_recursive = 0"
proof -
  have "NOT (4 :: 32 word) = NOT (1 OR 2 OR 4) OR 1 OR 2" by simp
  then have "a AND NOT 4 = (a AND NOT (1 OR 2 OR 4)) OR (a AND 1) OR (a AND 2)"
    by (simp only: word_ao_dist2)
  with assms show ?thesis
    by (simp add: access_flags_only_def svn_authz_read_def svn_authz_write_def
          svn_authz_recursive_def)
qed

text \<open>
  Claim C9, as the code has it. When the tree of the user is built and the path is
  absent or begins with \<open>/\<close>, a check that requires neither read nor write is
  granted, with or without the recursive flag.
\<close>

theorem check_access_nothing_required:
  assumes "access_flags_only required_access"
    and "required_access AND svn_authz_read = 0"
    and "required_access AND svn_authz_write = 0"
    and "create_user_authz (cfg authz) (case repos_name of None \<Rightarrow> [] | Some r \<Rightarrow> r) user \<noteq> None"
    and "path = None \<or> (\<exists>p. path = Some (CHR ''/'' # p))"
  shows "svn_repos_authz_check_access authz repos_name path user required_access
           = Some (Inr True)"
proof -
  from assms(1-3) have r: "required_access AND NOT svn_authz_recursive = 0"
    by (rule no_read_no_write)
  from assms(4) obtain root where
    t: "create_user_authz (cfg authz) (case repos_name of None \<Rightarrow> [] | Some r \<Rightarrow> r) user = Some root"
    by blast
  from assms(5) show ?thesis
  proof
    assume "path = None"
    with t r show ?thesis by (simp add: svn_repos_authz_check_access_def)
  next
    assume "\<exists>p. path = Some (CHR ''/'' # p)"
    then obtain p where "path = Some (CHR ''/'' # p)" ..
    with t r show ?thesis
      by (simp add: svn_repos_authz_check_access_def lookup_none_required)
  qed
qed

lemma create_user_authz_trunk:
  "create_user_authz [(''/trunk'', [(''alice'', ''rw'')])] [] (Some ''alice'') =
     Some (Node [] (Some \<lparr>rights = 0\<rparr>) 0 3 (Some [Node ''trunk'' (Some \<lparr>rights = 3\<rparr>) 3 3 None]))"
  by (simp add: create_user_authz_def process_path_rule_def
        has_matching_rule_def svn_config_enumerate2_def process_rule_def svn_cstring_split_def
        create_node_def set_add_string_def Let_def get_aliases_def get_group_memberships_def
        svn_authz_read_def svn_authz_none_def svn_authz_write_def)

theorem check_access_nothing_required_witness:
  "access_flags_only svn_authz_recursive \<and>
   svn_authz_recursive AND svn_authz_read = 0 \<and>
   svn_authz_recursive AND svn_authz_write = 0 \<and>
   create_user_authz [(''/trunk'', [(''alice'', ''rw'')])] [] (Some ''alice'') \<noteq> None \<and>
   svn_repos_authz_check_access \<lparr>cfg = [(''/trunk'', [(''alice'', ''rw'')])]\<rparr> None
     (Some ''/branches'') (Some ''alice'') svn_authz_recursive = Some (Inr True)"
proof -
  have h: "access_flags_only svn_authz_recursive"
    "svn_authz_recursive AND svn_authz_read = 0"
    "svn_authz_recursive AND svn_authz_write = 0"
    by (simp_all add: access_flags_only_def svn_authz_read_def svn_authz_write_def
          svn_authz_recursive_def)
  have t: "create_user_authz (cfg \<lparr>cfg = [(''/trunk'', [(''alice'', ''rw'')])]\<rparr>)
             (case None of None \<Rightarrow> [] | Some r \<Rightarrow> r) (Some ''alice'') \<noteq> None"
    by (simp add: create_user_authz_trunk)
  have p: "Some ''/branches'' = None \<or> (\<exists>p. Some ''/branches'' = Some (CHR ''/'' # p))"
    by simp
  from check_access_nothing_required [OF h t p] h t show ?thesis by simp
qed

text \<open>
  A path that does not begin with \<open>/\<close> fails the sanity check of the function, which
  returns the assertion failure and grants nothing.
\<close>

theorem relative_path_counterexample:
  "svn_repos_authz_check_access \<lparr>cfg = []\<rparr> None (Some ''trunk'') None svn_authz_none
     = Some (Inl (Svn_error SVN_ERR_ASSERTION_FAIL Assertion_failed))"
  by (simp add: svn_repos_authz_check_access_def create_user_authz_def create_node_def
        set_add_string_def Let_def svn_authz_none_def)

subsection \<open>Deny by default\<close>

lemma enumerate_sections_unchanged:
  assumes "\<And>name. callback name baton = (True, baton)"
  shows "svn_config_enumerate_sections2 secs callback baton = baton"
  by (induction secs) (auto simp: assms)

lemma no_rules_has_matching_rule:
  assumes "no_rules config" "is_path_rule name"
  shows "has_matching_rule config name memberships = None"
proof (cases "map_of config name")
  case None
  then show ?thesis by (simp add: has_matching_rule_def svn_config_enumerate2_def)
next
  case (Some es)
  then have "(name, es) \<in> set config" by (rule map_of_SomeD)
  with assms have "es = []" by (auto simp: no_rules_def)
  with Some show ?thesis by (simp add: has_matching_rule_def svn_config_enumerate2_def)
qed

lemma no_rules_process_path_rule:
  assumes "no_rules config"
  shows "process_path_rule config repository memberships name (Some root) = (True, Some root)"
proof (cases "is_path_rule name")
  case True
  from no_rules_has_matching_rule [OF assms True]
  show ?thesis by (simp add: process_path_rule_def Let_def)
next
  case False
  then show ?thesis by (auto simp: process_path_rule_def is_path_rule_def Let_def)
qed

lemma no_rules_create_user_authz:
  assumes "no_rules config"
  shows "create_user_authz config repository user =
           Some (Node [] (Some \<lparr>rights = svn_authz_none\<rparr>) svn_authz_none svn_authz_none None)"
proof -
  have "svn_config_enumerate_sections2 config
          (process_path_rule config repository (get_memberships config user))
          (Some (create_node [])) = Some (create_node [])"
    by (rule enumerate_sections_unchanged) (rule no_rules_process_path_rule [OF assms])
  then show ?thesis
    by (simp add: create_user_authz_def create_node_def svn_authz_none_def)
qed

lemma lookup_no_rights:
  assumes "required \<noteq> 0"
  shows "lookup (Node seg acc 0 0 subs) path required recursive = Some False"
  using assms
  by (simp add: lookup_def Let_def, subst lookup_walk.simps) (simp split: prod.splits)

lemma finalize_tree_access: "access (snd (finalize_tree mm a n)) = access n"
  by (cases n; cases mm) (simp add: Let_def split: prod.splits option.splits)

lemma create_user_authz_root_access:
  assumes "svn_config_enumerate_sections2 config
             (process_path_rule config repository (get_memberships config user))
             (Some (create_node [])) = Some r0"
  shows "\<exists>root. create_user_authz config repository user = Some root \<and>
           access root = Some (case access r0 of
                                 None \<Rightarrow> \<lparr>rights = svn_authz_none\<rparr>
                               | Some a \<Rightarrow> a)"
proof -
  define a where "a = (case access r0 of None \<Rightarrow> \<lparr>rights = svn_authz_none\<rparr> | Some a' \<Rightarrow> a')"
  define r1 where "r1 = Node (segment r0) (Some a) (min_rights r0) (max_rights r0) (sub_nodes r0)"
  obtain mm n' where f: "finalize_tree (min_rights r1, max_rights r1) a r1 = (mm, n')"
    by (metis prod.exhaust)
  have cua: "create_user_authz config repository user =
      (case finalize_tree (min_rights r1, max_rights r1) a r1 of
         (mm, Node seg acc mn mx subs) \<Rightarrow> Some (Node seg acc (mn AND mn) (mx OR mx) subs))"
    unfolding create_user_authz_def Let_def assms a_def r1_def by (simp only: option.case)
  from finalize_tree_access [of "(min_rights r1, max_rights r1)" a r1] f
  have "access n' = Some a" by (simp add: r1_def)
  then show ?thesis unfolding cua f by (cases n') (simp add: a_def)
qed

lemma no_rules_check_access:
  assumes "no_rules config"
    and "required_access AND NOT svn_authz_recursive \<noteq> svn_authz_none"
  shows "svn_repos_authz_check_access \<lparr>cfg = config\<rparr> repos_name query_path user required_access =
           (case query_path of
              None \<Rightarrow> Some (Inr False)
            | Some p \<Rightarrow>
                if p \<noteq> [] \<and> hd p = CHR ''/'' then Some (Inr False)
                else Some (Inl (Svn_error SVN_ERR_ASSERTION_FAIL Assertion_failed)))"
proof (cases query_path)
  case None
  with assms(2) show ?thesis
    by (simp add: svn_repos_authz_check_access_def no_rules_create_user_authz [OF assms(1)]
          svn_authz_none_def)
next
  case (Some p)
  with assms(2) show ?thesis
    by (simp add: svn_repos_authz_check_access_def no_rules_create_user_authz [OF assms(1)]
          svn_authz_none_def lookup_no_rights)
qed

text \<open>
  Claim C1. For every config, repository and user, anonymous or not, the root of the
  compiled tree has the access record that the rules have given it, and the default
  empty record when no rule has given it one, whatever lies below the root. When the
  config has no rules, the tree is the root alone with the default empty record; on it
  the lookup of any path answers false for any requirement that is not empty,
  recursive or not; and the public check of such a requirement answers false for an
  absent path and for a path that begins with \<open>/\<close>, and fails the sanity check for any
  other path.
\<close>

theorem no_rules_no_access:
  "(svn_config_enumerate_sections2 config
        (process_path_rule config repository (get_memberships config user))
        (Some (create_node [])) = Some r0 \<longrightarrow>
      (\<exists>root. create_user_authz config repository user = Some root \<and>
         access root = Some (case access r0 of
                               None \<Rightarrow> \<lparr>rights = svn_authz_none\<rparr>
                             | Some a \<Rightarrow> a))) \<and>
   (no_rules config \<longrightarrow>
      create_user_authz config repository user =
        Some (Node [] (Some \<lparr>rights = svn_authz_none\<rparr>) svn_authz_none svn_authz_none None) \<and>
      (required \<noteq> svn_authz_none \<longrightarrow>
         lookup (Node [] (Some \<lparr>rights = svn_authz_none\<rparr>) svn_authz_none svn_authz_none None)
           path required recursive = Some False) \<and>
      (required_access AND NOT svn_authz_recursive \<noteq> svn_authz_none \<longrightarrow>
         svn_repos_authz_check_access \<lparr>cfg = config\<rparr> repos_name query_path user
           required_access =
           (case query_path of
              None \<Rightarrow> Some (Inr False)
            | Some p \<Rightarrow>
                if p \<noteq> [] \<and> hd p = CHR ''/'' then Some (Inr False)
                else Some (Inl (Svn_error SVN_ERR_ASSERTION_FAIL Assertion_failed)))))"
proof (intro conjI impI)
  assume "svn_config_enumerate_sections2 config
        (process_path_rule config repository (get_memberships config user))
        (Some (create_node [])) = Some r0"
  then show "\<exists>root. create_user_authz config repository user = Some root \<and>
         access root = Some (case access r0 of
                               None \<Rightarrow> \<lparr>rights = svn_authz_none\<rparr>
                             | Some a \<Rightarrow> a)"
    by (rule create_user_authz_root_access)
next
  assume "no_rules config"
  then show "create_user_authz config repository user =
        Some (Node [] (Some \<lparr>rights = svn_authz_none\<rparr>) svn_authz_none svn_authz_none None)"
    by (rule no_rules_create_user_authz)
next
  assume "required \<noteq> svn_authz_none"
  then show "lookup (Node [] (Some \<lparr>rights = svn_authz_none\<rparr>) svn_authz_none svn_authz_none None)
           path required recursive = Some False"
    by (simp add: svn_authz_none_def lookup_no_rights)
next
  assume "no_rules config" and "required_access AND NOT svn_authz_recursive \<noteq> svn_authz_none"
  then show "svn_repos_authz_check_access \<lparr>cfg = config\<rparr> repos_name query_path user
           required_access =
           (case query_path of
              None \<Rightarrow> Some (Inr False)
            | Some p \<Rightarrow>
                if p \<noteq> [] \<and> hd p = CHR ''/'' then Some (Inr False)
                else Some (Inl (Svn_error SVN_ERR_ASSERTION_FAIL Assertion_failed)))"
    by (rule no_rules_check_access)
qed

lemma enumerate_sections_trunk:
  "svn_config_enumerate_sections2 [(''/trunk'', [(''alice'', ''rw'')])]
     (process_path_rule [(''/trunk'', [(''alice'', ''rw'')])] []
        (get_memberships [(''/trunk'', [(''alice'', ''rw'')])] (Some ''alice'')))
     (Some (create_node [])) =
   Some (Node [] None 0 0 (Some [Node ''trunk'' (Some \<lparr>rights = 3\<rparr>) 0 0 None]))"
  by (simp add: process_path_rule_def
        has_matching_rule_def svn_config_enumerate2_def process_rule_def svn_cstring_split_def
        create_node_def set_add_string_def Let_def get_aliases_def get_group_memberships_def
        svn_authz_read_def svn_authz_none_def svn_authz_write_def)

theorem no_rules_no_access_witness:
  "no_rules [(''groups'', [(''devs'', ''alice'')]), (''/trunk'', [])] \<and>
   create_user_authz [(''groups'', [(''devs'', ''alice'')]), (''/trunk'', [])] ''repo'' (Some ''alice'') =
     Some (Node [] (Some \<lparr>rights = svn_authz_none\<rparr>) svn_authz_none svn_authz_none None) \<and>
   lookup (Node [] (Some \<lparr>rights = svn_authz_none\<rparr>) svn_authz_none svn_authz_none None)
     ''trunk'' svn_authz_read True = Some False \<and>
   svn_repos_authz_check_access \<lparr>cfg = [(''groups'', [(''devs'', ''alice'')]), (''/trunk'', [])]\<rparr>
     (Some ''repo'') (Some ''/trunk'') (Some ''alice'') svn_authz_write = Some (Inr False) \<and>
   svn_config_enumerate_sections2 [(''/trunk'', [(''alice'', ''rw'')])]
     (process_path_rule [(''/trunk'', [(''alice'', ''rw'')])] []
        (get_memberships [(''/trunk'', [(''alice'', ''rw'')])] (Some ''alice'')))
     (Some (create_node [])) =
     Some (Node [] None 0 0 (Some [Node ''trunk'' (Some \<lparr>rights = 3\<rparr>) 0 0 None])) \<and>
   (\<exists>root. create_user_authz [(''/trunk'', [(''alice'', ''rw'')])] [] (Some ''alice'') = Some root \<and>
      access root = Some \<lparr>rights = svn_authz_none\<rparr>)"
proof -
  have h: "no_rules [(''groups'', [(''devs'', ''alice'')]), (''/trunk'', [])]"
    by (simp add: no_rules_def is_path_rule_def)
  have r: "svn_authz_read \<noteq> svn_authz_none"
    "svn_authz_write AND NOT svn_authz_recursive \<noteq> svn_authz_none"
    by (simp_all add: svn_authz_read_def svn_authz_write_def svn_authz_none_def
          svn_authz_recursive_def)
  from no_rules_no_access
         [of "[(''groups'', [(''devs'', ''alice'')]), (''/trunk'', [])]" "''repo''" "Some ''alice''"
             _ svn_authz_read "''trunk''" True svn_authz_write "Some ''repo''" "Some ''/trunk''"]
       h r
  have a: "create_user_authz [(''groups'', [(''devs'', ''alice'')]), (''/trunk'', [])] ''repo''
             (Some ''alice'') =
           Some (Node [] (Some \<lparr>rights = svn_authz_none\<rparr>) svn_authz_none svn_authz_none None)"
    "lookup (Node [] (Some \<lparr>rights = svn_authz_none\<rparr>) svn_authz_none svn_authz_none None)
       ''trunk'' svn_authz_read True = Some False"
    "svn_repos_authz_check_access \<lparr>cfg = [(''groups'', [(''devs'', ''alice'')]), (''/trunk'', [])]\<rparr>
       (Some ''repo'') (Some ''/trunk'') (Some ''alice'') svn_authz_write = Some (Inr False)"
    by simp_all
  from no_rules_no_access
         [of "[(''/trunk'', [(''alice'', ''rw'')])]" "[]" "Some ''alice''"
             "Node [] None 0 0 (Some [Node ''trunk'' (Some \<lparr>rights = 3\<rparr>) 0 0 None])"]
       enumerate_sections_trunk
  have b: "\<exists>root. create_user_authz [(''/trunk'', [(''alice'', ''rw'')])] [] (Some ''alice'') = Some root \<and>
      access root = Some \<lparr>rights = svn_authz_none\<rparr>"
    by simp
  from h a b enumerate_sections_trunk show ?thesis by simp
qed

subsection \<open>The minimal and maximal rights of a finalized tree\<close>

lemma rights_subset_refl: "rights_subset a a"
  by (simp add: rights_subset_def)

lemma rights_subset_trans:
  "rights_subset a b \<Longrightarrow> rights_subset b c \<Longrightarrow> rights_subset a c"
  unfolding rights_subset_def by (metis word_bw_assocs(1))

lemma rights_subset_and: "rights_subset (a AND b) a"
  unfolding rights_subset_def by (metis word_bw_assocs(1) word_bw_comms(1) word_bw_same(1))

lemma rights_subset_or: "rights_subset a (a OR b)"
  unfolding rights_subset_def by (simp add: word_ao_absorbs)

lemma finalize_bounded:
  "finalize_tree mm a n = (mm', n') \<Longrightarrow>
     mm' = (fst mm AND min_rights n', snd mm OR max_rights n') \<and>
     access n' = access n \<and>
     (\<forall>ne \<in> set (effective_nodes a n'). node_bounded ne)"
  "finalize_sub_nodes mm2 a2 ns = (mm2', ns') \<Longrightarrow>
     rights_subset (fst mm2') (fst mm2) \<and> rights_subset (snd mm2) (snd mm2') \<and>
     (\<forall>n' \<in> set ns'. \<forall>ne \<in> set (effective_nodes a2 n'). node_bounded ne)"
proof (induction mm a n and mm2 a2 ns arbitrary: mm' n' and mm2' ns'
       rule: finalize_tree_finalize_sub_nodes.induct)
  case (1 pmin pmax inherited_access seg acc mn mx subs)
  let ?a = "case acc of Some a' \<Rightarrow> a' | None \<Rightarrow> inherited_access"
  show ?case
  proof (cases subs)
    case None
    with "1.prems" have n': "n' = Node seg acc (rights ?a) (rights ?a) None"
      and mm': "mm' = (pmin AND rights ?a, pmax OR rights ?a)"
      by (auto simp: Let_def)
    show ?thesis unfolding n' mm'
      by (simp add: node_bounded_def rights_subset_refl)
  next
    case (Some ns)
    obtain mn2 mx2 ns2 where f: "finalize_sub_nodes (rights ?a, rights ?a) ?a ns = ((mn2, mx2), ns2)"
      by (metis prod.exhaust)
    from "1.IH" [OF refl Some f]
    have ih: "rights_subset mn2 (rights ?a)" "rights_subset (rights ?a) mx2"
      "\<forall>n' \<in> set ns2. \<forall>ne \<in> set (effective_nodes ?a n'). node_bounded ne"
      by simp_all
    from "1.prems" Some f have n': "n' = Node seg acc mn2 mx2 (Some ns2)"
      and mm': "mm' = (pmin AND mn2, pmax OR mx2)"
      by (auto simp: Let_def)
    show ?thesis unfolding n' mm' using ih
      by (auto simp: node_bounded_def Let_def)
  qed
next
  case (2 mm a)
  then show ?case by (simp add: rights_subset_refl)
next
  case (3 mm a n ns)
  obtain mm1 n1 where f1: "finalize_tree mm a n = (mm1, n1)" by (metis prod.exhaust)
  obtain mm3 ns3 where f3: "finalize_sub_nodes mm1 a ns = (mm3, ns3)" by (metis prod.exhaust)
  from "3.IH"(1) [OF f1]
  have ih1: "mm1 = (fst mm AND min_rights n1, snd mm OR max_rights n1)"
    "\<forall>ne \<in> set (effective_nodes a n1). node_bounded ne" by simp_all
  from "3.IH"(2) [OF f1 [symmetric] f3]
  have ih2: "rights_subset (fst mm3) (fst mm1)" "rights_subset (snd mm1) (snd mm3)"
    "\<forall>n' \<in> set ns3. \<forall>ne \<in> set (effective_nodes a n'). node_bounded ne" by simp_all
  from "3.prems" f1 f3 have r: "mm2' = mm3" "ns' = n1 # ns3" by simp_all
  have "rights_subset (fst mm3) (fst mm)"
    using ih2(1) ih1(1) rights_subset_and [of "fst mm" "min_rights n1"]
    by (auto intro: rights_subset_trans)
  moreover have "rights_subset (snd mm) (snd mm3)"
    using ih2(2) ih1(1) rights_subset_or [of "snd mm" "max_rights n1"]
    by (auto intro: rights_subset_trans)
  ultimately show ?case unfolding r using ih1(2) ih2(3) by simp
qed

lemma effective_nodes_own_access:
  "access n = Some a \<Longrightarrow> effective_nodes inherited n = effective_nodes a n"
  by (cases n; cases "sub_nodes n") simp_all

text \<open>
  Claim C4. In every tree that \<open>create_user_authz\<close> returns, whatever the config,
  the repository and the user, every node has its minimal rights within its effective
  rights, and these within its maximal rights; so the minimal rights are within the
  maximal rights. The root has an access record, so nothing is inherited from above
  it.
\<close>

theorem finalized_tree_bounds:
  assumes "create_user_authz config repository user = Some root"
    and "(n, e) \<in> set (effective_nodes inherited root)"
  shows "access root \<noteq> None \<and>
         rights_subset (min_rights n) (rights e) \<and>
         rights_subset (rights e) (max_rights n) \<and>
         rights_subset (min_rights n) (max_rights n)"
proof -
  from assms(1) obtain r0 where
    e: "svn_config_enumerate_sections2 config
          (process_path_rule config repository (get_memberships config user))
          (Some (create_node [])) = Some r0"
    by (auto simp: create_user_authz_def split: option.splits)
  define a where "a = (case access r0 of None \<Rightarrow> \<lparr>rights = svn_authz_none\<rparr> | Some a' \<Rightarrow> a')"
  define r1 where "r1 = Node (segment r0) (Some a) (min_rights r0) (max_rights r0) (sub_nodes r0)"
  obtain mm n' where f: "finalize_tree (min_rights r1, max_rights r1) a r1 = (mm, n')"
    by (metis prod.exhaust)
  have cua: "create_user_authz config repository user =
      (case finalize_tree (min_rights r1, max_rights r1) a r1 of
         (mm, Node seg acc mn mx subs) \<Rightarrow> Some (Node seg acc (mn AND mn) (mx OR mx) subs))"
    unfolding create_user_authz_def Let_def e a_def r1_def by (simp only: option.case)
  from assms(1) [unfolded cua f] have root': "root = n'"
    by (cases n') simp
  from finalize_bounded(1) [OF f]
  have acc: "access n' = Some a" and b: "\<forall>ne \<in> set (effective_nodes a n'). node_bounded ne"
    by (simp_all add: r1_def)
  from assms(2) have "(n, e) \<in> set (effective_nodes a n')"
    unfolding root' effective_nodes_own_access [OF acc, of inherited] .
  with b have "node_bounded (n, e)" by blast
  then have "rights_subset (min_rights n) (rights e)" "rights_subset (rights e) (max_rights n)"
    by (simp_all add: node_bounded_def)
  with acc root' show ?thesis by (auto intro: rights_subset_trans)
qed

theorem finalized_tree_bounds_witness:
  "create_user_authz [(''/trunk'', [(''alice'', ''rw'')])] [] (Some ''alice'') =
     Some (Node [] (Some \<lparr>rights = 0\<rparr>) 0 3 (Some [Node ''trunk'' (Some \<lparr>rights = 3\<rparr>) 3 3 None])) \<and>
   (Node ''trunk'' (Some \<lparr>rights = 3\<rparr>) 3 3 None, \<lparr>rights = 3\<rparr>)
     \<in> set (effective_nodes \<lparr>rights = 0\<rparr>
         (Node [] (Some \<lparr>rights = 0\<rparr>) 0 3 (Some [Node ''trunk'' (Some \<lparr>rights = 3\<rparr>) 3 3 None]))) \<and>
   rights_subset (3 :: svn_repos_authz_access_t) 3"
proof -
  have m: "(Node ''trunk'' (Some \<lparr>rights = 3\<rparr>) 3 3 None, \<lparr>rights = 3\<rparr>)
     \<in> set (effective_nodes \<lparr>rights = 0\<rparr>
         (Node [] (Some \<lparr>rights = 0\<rparr>) 0 3 (Some [Node ''trunk'' (Some \<lparr>rights = 3\<rparr>) 3 3 None])))"
    by simp
  from finalized_tree_bounds [OF create_user_authz_trunk m] create_user_authz_trunk m
  show ?thesis by simp
qed

subsection \<open>Recursive checks at the root\<close>

lemma create_user_authz_secret:
  "create_user_authz [(''/'', [(''alice'', ''rw'')]), (''/secret'', [(''alice'', [])])] []
     (Some ''alice'') =
     Some (Node [] (Some \<lparr>rights = 3\<rparr>) 0 3 (Some [Node ''secret'' (Some \<lparr>rights = 0\<rparr>) 0 0 None]))"
  by (simp add: create_user_authz_def process_path_rule_def
        has_matching_rule_def svn_config_enumerate2_def process_rule_def svn_cstring_split_def
        create_node_def set_add_string_def Let_def get_aliases_def get_group_memberships_def
        svn_authz_read_def svn_authz_none_def svn_authz_write_def)

text \<open>
  Claim C2 fails at the root. With read and write granted on \<open>/\<close> and taken away on
  \<open>/secret\<close>, the config passes the validation; the recursive check of read access
  on \<open>/\<close> is granted, and the check of read access on \<open>/secret\<close> below it is not.
  The walk takes the empty path for a segment, finds no sub-node of that name, and
  answers from the root's own access instead of the minimal rights of its subtree.
\<close>

theorem recursive_root_check_ignores_subtree:
  "svn_repos__authz_config_validate fuel
     [(''/'', [(''alice'', ''rw'')]), (''/secret'', [(''alice'', [])])] = Some (Inr ()) \<and>
   lookup (Node [] (Some \<lparr>rights = 3\<rparr>) 0 3 (Some [Node ''secret'' (Some \<lparr>rights = 0\<rparr>) 0 0 None]))
     [] svn_authz_read True = Some True \<and>
   lookup (Node [] (Some \<lparr>rights = 3\<rparr>) 0 3 (Some [Node ''secret'' (Some \<lparr>rights = 0\<rparr>) 0 0 None]))
     ''secret'' svn_authz_read False = Some False \<and>
   svn_repos_authz_check_access
     \<lparr>cfg = [(''/'', [(''alice'', ''rw'')]), (''/secret'', [(''alice'', [])])]\<rparr>
     None (Some ''/'') (Some ''alice'') (svn_authz_read OR svn_authz_recursive) = Some (Inr True) \<and>
   svn_repos_authz_check_access
     \<lparr>cfg = [(''/'', [(''alice'', ''rw'')]), (''/secret'', [(''alice'', [])])]\<rparr>
     None (Some ''/secret'') (Some ''alice'') svn_authz_read = Some (Inr False)"
  by (simp add: svn_repos_authz_check_access_def create_user_authz_secret lookup_def
        lookup_walk.simps next_segment_def Let_def svn_authz_read_def svn_authz_recursive_def
        svn_repos__authz_config_validate_def authz_validate_section_def
        svn_fspath__is_canonical_def svn_config_enumerate2_def authz_validate_rule_def
        svn_ctype_isspace_def)

subsection \<open>Two sections for one node\<close>

text \<open>
  Claim C7 fails. The sections \<open>/a\<close> and \<open>repo:/a\<close> have different names and pass
  the validation, and for the repository \<open>repo\<close> both resolve to the node of
  \<open>/a\<close>: the second insertion finds the access of the node set, the assertion of
  \<open>insert_path\<close> fails, and no tree and no answer is returned.
\<close>

theorem duplicate_leaf_assertion_fails:
  "svn_repos__authz_config_validate fuel
     [(''/a'', [(''alice'', ''r'')]), (''repo:/a'', [(''alice'', ''rw'')])] = Some (Inr ()) \<and>
   insert_path (Node [] None 0 0 (Some [Node ''a'' (Some \<lparr>rights = svn_authz_read\<rparr>) 0 0 None]))
     [''a''] \<lparr>rights = svn_authz_read OR svn_authz_write\<rparr> = None \<and>
   create_user_authz [(''/a'', [(''alice'', ''r'')]), (''repo:/a'', [(''alice'', ''rw'')])]
     ''repo'' (Some ''alice'') = None \<and>
   svn_repos_authz_check_access
     \<lparr>cfg = [(''/a'', [(''alice'', ''r'')]), (''repo:/a'', [(''alice'', ''rw'')])]\<rparr>
     (Some ''repo'') (Some ''/a'') (Some ''alice'') svn_authz_read = None"
  by (simp add: svn_repos_authz_check_access_def create_user_authz_def process_path_rule_def
        has_matching_rule_def svn_config_enumerate2_def process_rule_def svn_cstring_split_def
        create_node_def set_add_string_def Let_def get_aliases_def get_group_memberships_def
        svn_authz_read_def svn_authz_none_def svn_authz_write_def
        svn_repos__authz_config_validate_def authz_validate_section_def
        svn_fspath__is_canonical_def authz_validate_rule_def svn_ctype_isspace_def)

subsection \<open>Walking the groups\<close>

lemma authz_group_walk_restores:
  "authz_group_walk n config g C = Some (Inr C') \<Longrightarrow> C' = C"
  "authz_group_walk_list n config g ms C = Some (Inr C') \<Longrightarrow>
     C' = C \<and>
     (\<forall>h. CHR ''@'' # h \<in> set ms \<longrightarrow>
        h \<notin> C \<and> authz_group_walk n config h (insert h C) = Some (Inr (insert h C)))"
proof (induction n config g C and n config g ms C arbitrary: C' and C'
       rule: authz_group_walk_authz_group_walk_list.induct)
  case (1 config grp checked_groups)
  then show ?case by simp
next
  case (2 fuel config grp checked_groups)
  then show ?case by (auto split: option.splits)
next
  case (3 fuel config grp checked_groups)
  then show ?case by simp
next
  case (4 fuel config grp group_user members checked_groups)
  show ?case
  proof (cases "group_user \<noteq> [] \<and> hd group_user = CHR ''@''")
    case True
    let ?h = "tl group_user"
    from True have gu: "group_user = CHR ''@'' # ?h" by (cases group_user) auto
    from "4.prems" True have notin: "?h \<notin> checked_groups"
      by (auto split: if_splits)
    from "4.prems" True notin obtain C1 where
      w: "authz_group_walk fuel config ?h (insert ?h checked_groups) = Some (Inr C1)"
      and l: "authz_group_walk_list fuel config grp members (C1 - {?h}) = Some (Inr C')"
      by (auto split: option.splits sum.splits)
    from "4.IH"(1) [OF True notin w] have C1: "C1 = insert ?h checked_groups" .
    with notin have restored: "C1 - {?h} = checked_groups" by auto
    from "4.IH"(2) [OF True notin w refl l] restored
    have rest: "C' = checked_groups"
      "\<forall>h. CHR ''@'' # h \<in> set members \<longrightarrow>
         h \<notin> checked_groups \<and>
         authz_group_walk fuel config h (insert h checked_groups) = Some (Inr (insert h checked_groups))"
      by simp_all
    show ?thesis
    proof (intro conjI allI impI)
      show "C' = checked_groups" by (rule rest(1))
    next
      fix h assume "CHR ''@'' # h \<in> set (group_user # members)"
      then have "h = ?h \<or> CHR ''@'' # h \<in> set members" using gu by auto
      then show "h \<notin> checked_groups" using notin rest(2) by auto
    next
      fix h assume "CHR ''@'' # h \<in> set (group_user # members)"
      then have "h = ?h \<or> CHR ''@'' # h \<in> set members" using gu by auto
      then show "authz_group_walk fuel config h (insert h checked_groups)
                   = Some (Inr (insert h checked_groups))"
        using w C1 rest(2) by auto
    qed
  next
    case False
    note notat = False
    show ?thesis
    proof (cases "group_user \<noteq> [] \<and> hd group_user = CHR ''&''")
      case True
      with "4.prems" notat obtain al where
        a: "svn_config_get config ''aliases'' (tl group_user) = Some al"
        and l: "authz_group_walk_list fuel config grp members checked_groups = Some (Inr C')"
        by (auto split: option.splits)
      from "4.IH"(3) [OF notat True a l] notat show ?thesis
        by (cases group_user) auto
    next
      case False
      with "4.prems" notat
      have l: "authz_group_walk_list fuel config grp members checked_groups = Some (Inr C')"
        by auto
      from "4.IH"(4) [OF notat False l] notat show ?thesis
        by (cases group_user) auto
    qed
  qed
qed

lemma finite_defined_groups: "finite (dom (svn_config_get config ''groups''))"
proof -
  have "dom (svn_config_get config ''groups'') =
        dom (case map_of config ''groups'' of None \<Rightarrow> Map.empty | Some es \<Rightarrow> map_of es)"
    by (auto simp: svn_config_get_def dom_def split: option.splits)
  then show ?thesis by (simp add: finite_dom_map_of split: option.splits)
qed

lemma card_defined_groups:
  "card (dom (svn_config_get config ''groups'')) + 2 \<le> group_fuel config"
proof (cases "map_of config ''groups''")
  case None
  then have "dom (svn_config_get config ''groups'') = {}"
    by (auto simp: svn_config_get_def)
  then show ?thesis by (simp add: group_fuel_def)
next
  case (Some es)
  then have "svn_config_get config ''groups'' = map_of es"
    by (simp add: svn_config_get_def fun_eq_iff)
  then have "dom (svn_config_get config ''groups'') = fst ` set es"
    by (simp add: dom_map_of_conv_image_fst)
  moreover have "card (fst ` set es) \<le> length es"
    by (metis card_image_le card_length le_trans List.finite_set)
  ultimately show ?thesis using Some by (simp add: group_fuel_def)
qed

text \<open>
  The walk comes to an end: below a set of checked groups, it needs no more fuel than
  the number of defined groups that are not yet checked, and two.
\<close>

lemma authz_group_walk_terminates:
  "card (dom (svn_config_get config ''groups'') - C) + 2 \<le> n \<Longrightarrow>
     authz_group_walk n config g C \<noteq> None"
  "card (dom (svn_config_get config ''groups'') - C) + 1 \<le> n \<Longrightarrow>
     authz_group_walk_list n config g ms C \<noteq> None"
proof (induction n config g C and n config g ms C
       rule: authz_group_walk_authz_group_walk_list.induct)
  case (1 config grp checked_groups)
  then show ?case by simp
next
  case (2 fuel config grp checked_groups)
  then show ?case by (auto split: option.splits)
next
  case (3 fuel config grp checked_groups)
  then show ?case by simp
next
  case (4 fuel config grp group_user members checked_groups)
  let ?D = "dom (svn_config_get config ''groups'')"
  show ?case
  proof (cases "group_user \<noteq> [] \<and> hd group_user = CHR ''@''")
    case True
    note at = True
    let ?h = "tl group_user"
    show ?thesis
    proof (cases "?h \<in> checked_groups")
      case True
      with at show ?thesis by simp
    next
      case False
      have sub: "authz_group_walk fuel config ?h (insert ?h checked_groups) \<noteq> None"
      proof (cases "?h \<in> ?D")
        case True
        with False have "?h \<in> ?D - checked_groups" by simp
        then have "card (?D - checked_groups) = Suc (card (?D - checked_groups - {?h}))"
          using finite_defined_groups [of config]
          by (metis card.remove finite_Diff)
        moreover have "?D - insert ?h checked_groups = ?D - checked_groups - {?h}" by auto
        ultimately have "card (?D - insert ?h checked_groups) + 2 \<le> fuel"
          using "4.prems" by simp
        then show ?thesis by (rule "4.IH"(1) [OF at False])
      next
        case False
        then have u: "svn_config_get config ''groups'' ?h = None" by auto
        from "4.prems" obtain k where "fuel = Suc k" by (cases fuel) auto
        with u show ?thesis by simp
      qed
      then obtain r where r: "authz_group_walk fuel config ?h (insert ?h checked_groups) = Some r"
        by auto
      show ?thesis
      proof (cases r)
        case (Inl e)
        with at False r show ?thesis by simp
      next
        case (Inr C1)
        from authz_group_walk_restores(1) [OF r [unfolded Inr]] False
        have "C1 - {?h} = checked_groups" by auto
        with "4.IH"(2) [OF at False r Inr] "4.prems"
        have "authz_group_walk_list fuel config grp members (C1 - {?h}) \<noteq> None" by simp
        with at False r Inr show ?thesis by simp
      qed
    qed
  next
    case False
    note notat = False
    show ?thesis
    proof (cases "group_user \<noteq> [] \<and> hd group_user = CHR ''&''")
      case True
      show ?thesis
      proof (cases "svn_config_get config ''aliases'' (tl group_user)")
        case None
        with notat True show ?thesis by auto
      next
        case (Some al)
        from "4.IH"(3) [OF notat True Some "4.prems"] notat True Some show ?thesis by auto
      qed
    next
      case False
      from "4.IH"(4) [OF notat False "4.prems"] notat False show ?thesis by auto
    qed
  qed
qed

lemma authz_group_walk_member:
  assumes "authz_group_walk n config g C = Some (Inr C')" and "(g, h) \<in> member_edges config"
  shows "h \<notin> C \<and> (\<exists>k. authz_group_walk k config h (insert h C) = Some (Inr (insert h C)))"
proof -
  from assms(1) obtain k where n: "n = Suc k" by (cases n) auto
  from assms(2) have "CHR ''@'' # h \<in> set (group_members config g)"
    by (simp add: member_edges_def)
  then obtain val where v: "svn_config_get config ''groups'' g = Some val"
    and m: "CHR ''@'' # h \<in> set (svn_cstring_split val '','' True)"
    by (cases "svn_config_get config ''groups'' g") (simp_all add: group_members_def)
  from assms(1) n v
  have "authz_group_walk_list k config g (svn_cstring_split val '','' True) C = Some (Inr C')"
    by simp
  from authz_group_walk_restores(2) [OF this] m show ?thesis by blast
qed

lemma authz_group_walk_path:
  assumes "(g, h) \<in> (member_edges config)\<^sup>*"
    and "authz_group_walk n config g C = Some (Inr C)"
  shows "\<exists>k C2. C \<subseteq> C2 \<and> authz_group_walk k config h C2 = Some (Inr C2)"
  using assms
proof (induction rule: rtrancl_induct)
  case base
  then show ?case by blast
next
  case (step y z)
  then obtain k C2 where c: "C \<subseteq> C2" and w: "authz_group_walk k config y C2 = Some (Inr C2)"
    by blast
  from authz_group_walk_member [OF w step.hyps(2)] c show ?case
    by (meson subset_insertI2)
qed

text \<open>A walk that starts at a group of a cycle never returns without an error.\<close>

lemma authz_group_walk_cycle:
  assumes "(g, g) \<in> (member_edges config)\<^sup>+"
  shows "authz_group_walk n config g C \<noteq> Some (Inr C')"
proof
  assume a: "authz_group_walk n config g C = Some (Inr C')"
  then have w: "authz_group_walk n config g C = Some (Inr C)"
    using authz_group_walk_restores(1) by blast
  from assms obtain h where e: "(g, h) \<in> member_edges config"
    and p: "(h, g) \<in> (member_edges config)\<^sup>*"
    by (meson tranclD)
  from authz_group_walk_member [OF w e] obtain k where
    wh: "authz_group_walk k config h (insert h C) = Some (Inr (insert h C))" by blast
  from authz_group_walk_path [OF p wh] obtain k2 C2 where
    c: "insert h C \<subseteq> C2" and w2: "authz_group_walk k2 config g C2 = Some (Inr C2)" by blast
  from authz_group_walk_member [OF w2 e] c show False by blast
qed

lemma authz_group_walk_errno:
  "authz_group_walk n config g C = Some (Inl e) \<Longrightarrow> apr_err e = SVN_ERR_AUTHZ_INVALID_CONFIG"
  "authz_group_walk_list n config g ms C = Some (Inl e) \<Longrightarrow>
     apr_err e = SVN_ERR_AUTHZ_INVALID_CONFIG"
proof (induction n config g C and n config g ms C
       rule: authz_group_walk_authz_group_walk_list.induct)
  case (1 config grp checked_groups)
  then show ?case by simp
next
  case (2 fuel config grp checked_groups)
  then show ?case by (auto split: option.splits)
next
  case (3 fuel config grp checked_groups)
  then show ?case by simp
next
  case (4 fuel config grp group_user members checked_groups)
  then show ?case
    by (auto split: if_splits option.splits sum.splits)
qed

text \<open>
  When the walk reports a circular dependency between \<open>h\<close> and \<open>g\<close>, then \<open>h\<close> is
  a member of \<open>g\<close> and \<open>g\<close> depends on \<open>h\<close>, as long as every checked group leads
  to the group the walk is at.
\<close>

lemma authz_group_walk_circular:
  "authz_group_walk n config g C =
     Some (Inl (Svn_error c (Circular_dependency h g'))) \<Longrightarrow>
   \<forall>x \<in> C. (x, g) \<in> (member_edges config)\<^sup>* \<Longrightarrow>
   (g', h) \<in> member_edges config \<and> (h, g') \<in> (member_edges config)\<^sup>*"
  "authz_group_walk_list n config g ms C =
     Some (Inl (Svn_error c (Circular_dependency h g'))) \<Longrightarrow>
   \<forall>x \<in> C. (x, g) \<in> (member_edges config)\<^sup>* \<Longrightarrow>
   set ms \<subseteq> set (group_members config g) \<Longrightarrow>
   (g', h) \<in> member_edges config \<and> (h, g') \<in> (member_edges config)\<^sup>*"
proof (induction n config g C and n config g ms C
       rule: authz_group_walk_authz_group_walk_list.induct)
  case (1 config grp checked_groups)
  then show ?case by simp
next
  case (2 fuel config grp checked_groups)
  show ?case
  proof (cases "svn_config_get config ''groups'' grp")
    case None
    with "2.prems" show ?thesis by simp
  next
    case (Some val)
    with "2.prems" have
      "authz_group_walk_list fuel config grp (svn_cstring_split val '','' True) checked_groups
         = Some (Inl (Svn_error c (Circular_dependency h g')))"
      by simp
    from "2.IH" [OF Some this "2.prems"(2)] Some show ?thesis
      by (simp add: group_members_def)
  qed
next
  case (3 fuel config grp checked_groups)
  then show ?case by simp
next
  case (4 fuel config grp group_user members checked_groups)
  let ?E = "member_edges config"
  from "4.prems"(3) have ms: "set members \<subseteq> set (group_members config grp)"
    and gu: "group_user \<in> set (group_members config grp)" by simp_all
  show ?case
  proof (cases "group_user \<noteq> [] \<and> hd group_user = CHR ''@''")
    case True
    note at = True
    let ?h = "tl group_user"
    from at have "group_user = CHR ''@'' # ?h" by (cases group_user) auto
    with gu have edge: "(grp, ?h) \<in> ?E" by (simp add: member_edges_def)
    show ?thesis
    proof (cases "?h \<in> checked_groups")
      case True
      with at "4.prems"(1) have "h = ?h" "g' = grp" by simp_all
      with edge True "4.prems"(2) show ?thesis by blast
    next
      case False
      have inv: "\<forall>x \<in> insert ?h checked_groups. (x, ?h) \<in> ?E\<^sup>*"
        using "4.prems"(2) edge by (auto intro: rtrancl_into_rtrancl)
      show ?thesis
      proof (cases "authz_group_walk fuel config ?h (insert ?h checked_groups)")
        case None
        with at False "4.prems"(1) show ?thesis by simp
      next
        case (Some r)
        show ?thesis
        proof (cases r)
          case (Inl e)
          with at False Some "4.prems"(1)
          have "authz_group_walk fuel config ?h (insert ?h checked_groups)
                  = Some (Inl (Svn_error c (Circular_dependency h g')))"
            by simp
          from "4.IH"(1) [OF at False this inv] show ?thesis .
        next
          case (Inr C1)
          from authz_group_walk_restores(1) [OF Some [unfolded Inr]] False
          have C1: "C1 - {?h} = checked_groups" by auto
          from at False Some Inr "4.prems"(1)
          have "authz_group_walk_list fuel config grp members (C1 - {?h})
                  = Some (Inl (Svn_error c (Circular_dependency h g')))"
            by simp
          from "4.IH"(2) [OF at False Some Inr this] C1 "4.prems"(2) ms show ?thesis by simp
        qed
      qed
    qed
  next
    case False
    note notat = False
    show ?thesis
    proof (cases "group_user \<noteq> [] \<and> hd group_user = CHR ''&''")
      case True
      show ?thesis
      proof (cases "svn_config_get config ''aliases'' (tl group_user)")
        case None
        with notat True "4.prems"(1) show ?thesis by auto
      next
        case (Some al)
        with notat True "4.prems"(1)
        have "authz_group_walk_list fuel config grp members checked_groups
                = Some (Inl (Svn_error c (Circular_dependency h g')))"
          by auto
        from "4.IH"(3) [OF notat True Some this "4.prems"(2) ms] show ?thesis .
      qed
    next
      case False
      with notat "4.prems"(1)
      have "authz_group_walk_list fuel config grp members checked_groups
              = Some (Inl (Svn_error c (Circular_dependency h g')))"
        by auto
      from "4.IH"(4) [OF notat False this "4.prems"(2) ms] show ?thesis .
    qed
  qed
qed

lemma authz_group_walk_fuel_step:
  "authz_group_walk n config g C = Some r \<Longrightarrow> authz_group_walk (Suc n) config g C = Some r"
  "authz_group_walk_list n config g ms C = Some r \<Longrightarrow>
     authz_group_walk_list (Suc n) config g ms C = Some r"
proof (induction n config g C and n config g ms C arbitrary: r and r
       rule: authz_group_walk_authz_group_walk_list.induct)
  case (1 config grp checked_groups)
  then show ?case by simp
next
  case (2 fuel config grp checked_groups)
  show ?case
  proof (cases "svn_config_get config ''groups'' grp")
    case None
    with "2.prems" show ?thesis by simp
  next
    case (Some val)
    with "2.prems" "2.IH" [OF Some] show ?thesis by simp
  qed
next
  case (3 fuel config grp checked_groups)
  then show ?case by simp
next
  case (4 fuel config grp group_user members checked_groups)
  show ?case
  proof (cases "group_user \<noteq> [] \<and> hd group_user = CHR ''@''")
    case True
    note at = True
    let ?h = "tl group_user"
    show ?thesis
    proof (cases "?h \<in> checked_groups")
      case True
      with at "4.prems" show ?thesis by simp
    next
      case False
      from "4.prems" at False obtain x where
        w: "authz_group_walk fuel config ?h (insert ?h checked_groups) = Some x"
        by (auto split: option.splits)
      from "4.IH"(1) [OF at False w]
      have w': "authz_group_walk (Suc fuel) config ?h (insert ?h checked_groups) = Some x" .
      show ?thesis
      proof (cases x)
        case (Inl e)
        with at False w w' "4.prems" show ?thesis by (auto simp del: authz_group_walk.simps)
      next
        case (Inr C1)
        with at False w "4.prems"
        have "authz_group_walk_list fuel config grp members (C1 - {?h}) = Some r"
          by (simp del: authz_group_walk.simps)
        from "4.IH"(2) [OF at False w Inr this] at False w' Inr show ?thesis
          by (simp del: authz_group_walk.simps)
      qed
    qed
  next
    case False
    note notat = False
    show ?thesis
    proof (cases "group_user \<noteq> [] \<and> hd group_user = CHR ''&''")
      case True
      show ?thesis
      proof (cases "svn_config_get config ''aliases'' (tl group_user)")
        case None
        with notat True "4.prems" show ?thesis by auto
      next
        case (Some al)
        with notat True "4.prems"
        have "authz_group_walk_list fuel config grp members checked_groups = Some r" by auto
        from "4.IH"(3) [OF notat True Some this] notat True Some show ?thesis by auto
      qed
    next
      case False
      with notat "4.prems"
      have "authz_group_walk_list fuel config grp members checked_groups = Some r" by auto
      from "4.IH"(4) [OF notat False this] notat False show ?thesis by auto
    qed
  qed
qed

lemma authz_group_walk_fuel_mono:
  "authz_group_walk n config g C = Some r \<Longrightarrow> n \<le> m \<Longrightarrow>
     authz_group_walk m config g C = Some r"
proof (induction m)
  case 0
  then show ?case by simp
next
  case (Suc m)
  show ?case
  proof (cases "n \<le> m")
    case True
    from authz_group_walk_fuel_step(1) [OF Suc.IH [OF Suc.prems(1) True]] show ?thesis .
  next
    case False
    with Suc.prems(2) have "n = Suc m" by simp
    with Suc.prems(1) show ?thesis by (simp del: authz_group_walk.simps)
  qed
qed

lemma authz_validate_group_fuel:
  assumes "group_fuel config \<le> fuel"
  shows "authz_validate_group fuel config = authz_validate_group (group_fuel config) config"
proof (intro ext)
  fix g val b
  let ?D = "dom (svn_config_get config ''groups'')"
  have "card (?D - {}) + 2 \<le> group_fuel config"
    using card_defined_groups [of config] by simp
  from authz_group_walk_terminates(1) [OF this] obtain r where
    r: "authz_group_walk (group_fuel config) config g {} = Some r" by blast
  from authz_group_walk_fuel_mono [OF r assms] r
  show "authz_validate_group fuel config g val b
          = authz_validate_group (group_fuel config) config g val b"
    by (simp add: authz_validate_group_def)
qed

subsection \<open>The validation and the cycles of groups\<close>

lemma enumerate_sections_invariant:
  assumes "P baton" and "\<And>name b. P b \<Longrightarrow> P (snd (callback name b))"
  shows "P (svn_config_enumerate_sections2 secs callback baton)"
  using assms(1)
proof (induction secs arbitrary: baton)
  case Nil
  then show ?case by simp
next
  case (Cons s secs)
  obtain name es where s: "s = (name, es)" by (cases s)
  obtain continue b' where cb: "callback name baton = (continue, b')"
    by (cases "callback name baton")
  from assms(2) [OF Cons.prems, of name] cb have "P b'" by simp
  with Cons.IH [of b'] s cb show ?case by (cases continue) simp_all
qed

lemma enumerate_entries_stops:
  assumes "(k0, v0) \<in> set es"
    and "\<And>k v b. \<not> fst (callback k v b) \<Longrightarrow> Q (snd (callback k v b))"
    and "\<And>b. \<not> fst (callback k0 v0 b)"
  shows "Q (enumerate_entries es callback baton)"
  using assms(1)
proof (induction es arbitrary: baton)
  case Nil
  then show ?case by simp
next
  case (Cons e es)
  obtain k v where e: "e = (k, v)" by (cases e)
  obtain continue b' where cb: "callback k v baton = (continue, b')"
    by (cases "callback k v baton")
  show ?case
  proof (cases continue)
    case True
    with cb assms(3) [of baton] have "(k, v) \<noteq> (k0, v0)" by auto
    with Cons.prems e have "(k0, v0) \<in> set es" by auto
    from Cons.IH [OF this, of b'] e cb True show ?thesis by simp
  next
    case False
    with assms(2) [of k v baton] cb e show ?thesis by simp
  qed
qed

lemma enumerate_sections_stops:
  assumes "(n0, es0) \<in> set secs"
    and "\<And>name b. \<not> fst (callback name b) \<Longrightarrow> Q (snd (callback name b))"
    and "\<And>b. \<not> fst (callback n0 b)"
  shows "Q (svn_config_enumerate_sections2 secs callback baton)"
  using assms(1)
proof (induction secs arbitrary: baton)
  case Nil
  then show ?case by simp
next
  case (Cons s secs)
  obtain name es where s: "s = (name, es)" by (cases s)
  obtain continue b' where cb: "callback name baton = (continue, b')"
    by (cases "callback name baton")
  show ?case
  proof (cases continue)
    case True
    with cb assms(3) [of baton] have "name \<noteq> n0" by auto
    with Cons.prems s have "(n0, es0) \<in> set secs" by auto
    from Cons.IH [OF this, of b'] s cb True show ?thesis by simp
  next
    case False
    with assms(2) [of name baton] cb s show ?thesis by simp
  qed
qed

lemma authz_validate_group_sound:
  assumes "group_fuel config \<le> fuel" and "sound_baton config b"
  shows "sound_baton config (snd (authz_validate_group fuel config g val b))"
proof -
  have "card (dom (svn_config_get config ''groups'') - {}) + 2 \<le> fuel"
    using card_defined_groups [of config] assms(1) by simp
  from authz_group_walk_terminates(1) [OF this] obtain r where
    r: "authz_group_walk fuel config g {} = Some r" by blast
  show ?thesis
  proof (cases r)
    case (Inl e)
    have "apr_err e = SVN_ERR_AUTHZ_INVALID_CONFIG"
      using authz_group_walk_errno(1) [OF r [unfolded Inl]] .
    moreover have "(g', h) \<in> member_edges config \<and> (h, g') \<in> (member_edges config)\<^sup>*"
      if "message e = Circular_dependency h g'" for h g'
    proof -
      from that have "e = Svn_error (apr_err e) (Circular_dependency h g')" by (cases e) simp
      with r Inl have "authz_group_walk fuel config g {} =
          Some (Inl (Svn_error (apr_err e) (Circular_dependency h g')))" by simp
      from authz_group_walk_circular(1) [OF this] show ?thesis by simp
    qed
    ultimately show ?thesis using assms(2) r Inl
      by (simp add: authz_validate_group_def sound_baton_def)
  next
    case (Inr C)
    with assms(2) r show ?thesis by (simp add: authz_validate_group_def sound_baton_def)
  qed
qed

lemma authz_validate_rule_sound:
  assumes "sound_baton config b"
  shows "sound_baton config (snd (authz_validate_rule config rule_match_string val b))"
  using assms
  by (simp add: authz_validate_rule_def sound_baton_def Let_def split: option.splits)

lemma authz_validate_section_sound:
  assumes "group_fuel config \<le> fuel" and "sound_baton config b"
  shows "sound_baton config (snd (authz_validate_section fuel config name b))"
proof -
  have g: "sound_baton config
             (svn_config_enumerate2 config name (authz_validate_group fuel config) b)"
    by (rule svn_config_enumerate2_invariant [where P = "sound_baton config", OF assms(2)])
       (rule authz_validate_group_sound [OF assms(1)])
  have a: "sound_baton config (svn_config_enumerate2 config name authz_validate_alias b)"
    by (rule svn_config_enumerate2_invariant [where P = "sound_baton config", OF assms(2)])
       (simp add: authz_validate_alias_def)
  have r: "sound_baton config
             (svn_config_enumerate2 config name (authz_validate_rule config) b)"
    by (rule svn_config_enumerate2_invariant [where P = "sound_baton config", OF assms(2)])
       (rule authz_validate_rule_sound)
  have n: "sound_baton config
     (b\<lparr>err := Some (Svn_error SVN_ERR_AUTHZ_INVALID_CONFIG (Non_canonical_fspath name p))\<rparr>)"
    for p
    using assms(2) by (simp add: sound_baton_def)
  show ?thesis
  proof (cases "name = ''groups''")
    case True
    with g show ?thesis by (simp add: authz_validate_section_def Let_def)
  next
    case False
    note not_groups = False
    show ?thesis
    proof (cases "name = ''aliases''")
      case True
      with not_groups a show ?thesis by (simp add: authz_validate_section_def Let_def)
    next
      case False
      with not_groups r n show ?thesis by (simp add: authz_validate_section_def Let_def)
    qed
  qed
qed

lemma authz_validate_section_stops:
  "\<not> fst (authz_validate_section fuel config name b) \<Longrightarrow>
     err (snd (authz_validate_section fuel config name b)) \<noteq> None \<or>
     out_of_fuel (snd (authz_validate_section fuel config name b))"
  by (auto simp: authz_validate_section_def Let_def split: if_splits)

lemma authz_validate_group_stops:
  "\<not> fst (authz_validate_group fuel config g val b) \<Longrightarrow>
     err (snd (authz_validate_group fuel config g val b)) \<noteq> None \<or>
     out_of_fuel (snd (authz_validate_group fuel config g val b))"
  by (auto simp: authz_validate_group_def split: option.splits sum.splits)

lemma has_group_cycle_entry:
  assumes "(g, g) \<in> (member_edges config)\<^sup>+"
  obtains es val where "map_of config ''groups'' = Some es" and "(g, val) \<in> set es"
proof -
  from assms obtain h where "(g, h) \<in> member_edges config" by (meson tranclD)
  then have "group_members config g \<noteq> []" by (auto simp: member_edges_def)
  then obtain val where "svn_config_get config ''groups'' g = Some val"
    by (cases "svn_config_get config ''groups'' g") (simp_all add: group_members_def)
  then obtain es where "map_of config ''groups'' = Some es" and "map_of es g = Some val"
    by (cases "map_of config ''groups''") (simp_all add: svn_config_get_def)
  with that show thesis by (meson map_of_SomeD)
qed

lemma authz_validate_section_cycle:
  assumes "has_group_cycle config"
  shows "\<not> fst (authz_validate_section fuel config ''groups'' b)"
proof -
  from assms obtain g where g: "(g, g) \<in> (member_edges config)\<^sup>+"
    by (auto simp: has_group_cycle_def)
  from has_group_cycle_entry [OF g] obtain es val where
    es: "map_of config ''groups'' = Some es" and m: "(g, val) \<in> set es" by blast
  let ?b = "enumerate_entries es (authz_validate_group fuel config) b"
  have "err ?b \<noteq> None \<or> out_of_fuel ?b"
  proof (rule enumerate_entries_stops [OF m])
    fix k v b'
    assume "\<not> fst (authz_validate_group fuel config k v b')"
    then show "err (snd (authz_validate_group fuel config k v b')) \<noteq> None \<or>
               out_of_fuel (snd (authz_validate_group fuel config k v b'))"
      by (rule authz_validate_group_stops)
  next
    fix b'
    show "\<not> fst (authz_validate_group fuel config g val b')"
      using authz_group_walk_cycle [OF g, of fuel "{}"]
      by (auto simp: authz_validate_group_def split: option.splits sum.splits)
  qed
  with es show ?thesis
    by (auto simp: authz_validate_section_def svn_config_enumerate2_def Let_def)
qed

text \<open>
  When the groups section refers to nothing undefined, the only error of a walk is the
  circular dependency.
\<close>

lemma authz_group_walk_only_circular:
  "authz_group_walk n config g C = Some (Inl e) \<Longrightarrow> references_defined config \<Longrightarrow>
   svn_config_get config ''groups'' g \<noteq> None \<Longrightarrow>
   \<exists>h g'. message e = Circular_dependency h g'"
  "authz_group_walk_list n config g ms C = Some (Inl e) \<Longrightarrow> references_defined config \<Longrightarrow>
   set ms \<subseteq> set (group_members config g) \<Longrightarrow>
   \<exists>h g'. message e = Circular_dependency h g'"
proof (induction n config g C and n config g ms C
       rule: authz_group_walk_authz_group_walk_list.induct)
  case (1 config grp checked_groups)
  then show ?case by simp
next
  case (2 fuel config grp checked_groups)
  from "2.prems"(3) obtain val where v: "svn_config_get config ''groups'' grp = Some val"
    by blast
  with "2.prems"(1) have
    "authz_group_walk_list fuel config grp (svn_cstring_split val '','' True) checked_groups
       = Some (Inl e)"
    by simp
  from "2.IH" [OF v this "2.prems"(2)] v show ?case by (simp add: group_members_def)
next
  case (3 fuel config grp checked_groups)
  then show ?case by simp
next
  case (4 fuel config grp group_user members checked_groups)
  from "4.prems"(3) have ms: "set members \<subseteq> set (group_members config grp)"
    and gu: "group_user \<in> set (group_members config grp)" by simp_all
  show ?case
  proof (cases "group_user \<noteq> [] \<and> hd group_user = CHR ''@''")
    case True
    note at = True
    let ?h = "tl group_user"
    from at gu "4.prems"(2) have d: "svn_config_get config ''groups'' ?h \<noteq> None"
      by (auto simp: references_defined_def)
    show ?thesis
    proof (cases "?h \<in> checked_groups")
      case True
      with at "4.prems"(1) show ?thesis by auto
    next
      case False
      show ?thesis
      proof (cases "authz_group_walk fuel config ?h (insert ?h checked_groups)")
        case None
        with at False "4.prems"(1) show ?thesis by simp
      next
        case (Some r)
        show ?thesis
        proof (cases r)
          case (Inl e')
          with at False Some "4.prems"(1)
          have "authz_group_walk fuel config ?h (insert ?h checked_groups) = Some (Inl e)"
            by simp
          from "4.IH"(1) [OF at False this "4.prems"(2) d] show ?thesis .
        next
          case (Inr C1)
          with at False Some "4.prems"(1)
          have "authz_group_walk_list fuel config grp members (C1 - {?h}) = Some (Inl e)"
            by simp
          from "4.IH"(2) [OF at False Some Inr this "4.prems"(2) ms] show ?thesis .
        qed
      qed
    qed
  next
    case False
    note notat = False
    show ?thesis
    proof (cases "group_user \<noteq> [] \<and> hd group_user = CHR ''&''")
      case True
      with gu "4.prems"(2) obtain al where
        a: "svn_config_get config ''aliases'' (tl group_user) = Some al"
        by (auto simp: references_defined_def)
      with notat True "4.prems"(1)
      have "authz_group_walk_list fuel config grp members checked_groups = Some (Inl e)"
        by auto
      from "4.IH"(3) [OF notat True a this "4.prems"(2) ms] show ?thesis .
    next
      case False
      with notat "4.prems"(1)
      have "authz_group_walk_list fuel config grp members checked_groups = Some (Inl e)"
        by auto
      from "4.IH"(4) [OF notat False this "4.prems"(2) ms] show ?thesis .
    qed
  qed
qed

lemma enumerate_entries_running:
  assumes "R baton"
    and "\<And>k v b. (k, v) \<in> set es \<Longrightarrow> R b \<Longrightarrow>
           (if fst (callback k v b) then R (snd (callback k v b))
            else Q (snd (callback k v b)))"
  shows "R (enumerate_entries es callback baton) \<or> Q (enumerate_entries es callback baton)"
  using assms
proof (induction es arbitrary: baton)
  case Nil
  then show ?case by simp
next
  case (Cons e es)
  obtain k v where e: "e = (k, v)" by (cases e)
  obtain continue b' where cb: "callback k v baton = (continue, b')"
    by (cases "callback k v baton")
  have "(k, v) \<in> set (e # es)" by (simp add: e)
  from Cons.prems(2) [OF this Cons.prems(1)]
  have step: "if continue then R b' else Q b'" by (cases continue) (simp_all add: cb)
  show ?case
  proof (cases continue)
    case True
    with step have "R b'" by simp
    from Cons.IH [OF this] Cons.prems(2) e cb True show ?thesis by simp
  next
    case False
    with step e cb show ?thesis by simp
  qed
qed


lemma sections_stop_at_groups:
  assumes "(''groups'', es0) \<in> set secs"
    and "\<forall>(name, es) \<in> set (takeWhile (\<lambda>s. fst s \<noteq> ''groups'') secs).
           callback name baton = (True, baton)"
    and "\<not> fst (callback ''groups'' baton)"
  shows "svn_config_enumerate_sections2 secs callback baton = snd (callback ''groups'' baton)"
  using assms(1,2)
proof (induction secs)
  case Nil
  then show ?case by simp
next
  case (Cons s secs)
  obtain name es where s: "s = (name, es)" by (cases s)
  show ?case
  proof (cases "name = ''groups''")
    case True
    with s assms(3) show ?thesis by (cases "callback ''groups'' baton") auto
  next
    case False
    with Cons.prems s have "(''groups'', es0) \<in> set secs"
      and "\<forall>(name, es) \<in> set (takeWhile (\<lambda>s. fst s \<noteq> ''groups'') secs).
             callback name baton = (True, baton)"
      and "callback name baton = (True, baton)"
      by auto
    with Cons.IH s show ?thesis by simp
  qed
qed

text \<open>
  The groups section of a config with a circular dependency and no undefined reference:
  its validation ends with the error of a circular dependency between two groups of a
  cycle.
\<close>

lemma authz_validate_groups_circular:
  assumes "group_fuel config \<le> fuel" and "has_group_cycle config"
    and "references_defined config"
  shows "\<exists>h g. authz_validate_section fuel config ''groups'' \<lparr>err = None, out_of_fuel = False\<rparr>
             = (False, \<lparr>err = Some (Svn_error SVN_ERR_AUTHZ_INVALID_CONFIG
                                  (Circular_dependency h g)), out_of_fuel = False\<rparr>) \<and>
           (g, h) \<in> member_edges config \<and> (h, g) \<in> (member_edges config)\<^sup>*"
proof -
  let ?init = "\<lparr>err = None, out_of_fuel = False\<rparr>"
  let ?Q = "\<lambda>b. \<exists>h g. b = \<lparr>err = Some (Svn_error SVN_ERR_AUTHZ_INVALID_CONFIG
                                  (Circular_dependency h g)), out_of_fuel = False\<rparr> \<and>
              (g, h) \<in> member_edges config \<and> (h, g) \<in> (member_edges config)\<^sup>*"
  from assms(2) obtain g0 where g0: "(g0, g0) \<in> (member_edges config)\<^sup>+"
    by (auto simp: has_group_cycle_def)
  from has_group_cycle_entry [OF g0] obtain es where es: "map_of config ''groups'' = Some es"
    by blast
  let ?fin = "enumerate_entries es (authz_validate_group fuel config) ?init"
  have step: "if fst (authz_validate_group fuel config k v b)
          then snd (authz_validate_group fuel config k v b) = ?init
          else ?Q (snd (authz_validate_group fuel config k v b))"
    if kv: "(k, v) \<in> set es" and b: "b = ?init" for k v b
  proof -
    from kv have "map_of es k \<noteq> None" by (metis map_of_eq_None_iff fst_conv image_eqI)
    with es have d: "svn_config_get config ''groups'' k \<noteq> None"
      by (simp add: svn_config_get_def)
    have "card (dom (svn_config_get config ''groups'') - {}) + 2 \<le> fuel"
      using card_defined_groups [of config] assms(1) by simp
    from authz_group_walk_terminates(1) [OF this] obtain r where
      r: "authz_group_walk fuel config k {} = Some r" by blast
    show ?thesis
    proof (cases r)
      case (Inl e)
      from authz_group_walk_only_circular(1) [OF r [unfolded Inl] assms(3) d]
      obtain h g where m: "message e = Circular_dependency h g" by blast
      have c: "apr_err e = SVN_ERR_AUTHZ_INVALID_CONFIG"
        using authz_group_walk_errno(1) [OF r [unfolded Inl]] .
      from m c have e: "e = Svn_error SVN_ERR_AUTHZ_INVALID_CONFIG (Circular_dependency h g)"
        by (cases e) simp
      from authz_group_walk_circular(1) [OF r [unfolded Inl e]]
      have "(g, h) \<in> member_edges config \<and> (h, g) \<in> (member_edges config)\<^sup>*" by simp
      with r Inl e b show ?thesis by (simp add: authz_validate_group_def)
    next
      case (Inr C)
      with r b show ?thesis by (simp add: authz_validate_group_def)
    qed
  qed
  have run: "?fin = ?init \<or> ?Q ?fin"
    by (rule enumerate_entries_running [where R = "\<lambda>b. b = ?init" and Q = ?Q, OF refl step])
  have v: "authz_validate_section fuel config ''groups'' ?init
             = (err ?fin = None \<and> \<not> out_of_fuel ?fin, ?fin)"
    using es by (simp add: authz_validate_section_def svn_config_enumerate2_def Let_def)
  from authz_validate_section_cycle [OF assms(2), of fuel ?init] v
  have "\<not> (err ?fin = None \<and> \<not> out_of_fuel ?fin)" by simp
  then have "?fin \<noteq> ?init" by auto
  with run have "?Q ?fin" by blast
  then obtain h g where q: "?fin = \<lparr>err = Some (Svn_error SVN_ERR_AUTHZ_INVALID_CONFIG
                                  (Circular_dependency h g)), out_of_fuel = False\<rparr>"
    and c: "(g, h) \<in> member_edges config \<and> (h, g) \<in> (member_edges config)\<^sup>*" by blast
  from v q have "authz_validate_section fuel config ''groups'' ?init
             = (False, \<lparr>err = Some (Svn_error SVN_ERR_AUTHZ_INVALID_CONFIG
                                  (Circular_dependency h g)), out_of_fuel = False\<rparr>)"
    by simp
  with c show ?thesis by blast
qed

text \<open>
  Claim C8, as the code has it. With the fuel that the config asks for, or more, the
  validation comes to an end, with the same result whatever the fuel. When the groups
  section has a circular dependency the result is an error, and every error of the
  validation is an invalid-config error. The error is that of the circular dependency,
  naming two groups of a cycle (\<open>h\<close>, a member of \<open>g\<close>, and \<open>g\<close>, which depends on
  \<open>h\<close>), when the groups section refers to no undefined group or alias and the sections
  visited before it are valid; otherwise it may be the error met first. An error of a
  circular dependency always names two groups of a cycle.
\<close>

theorem group_cycle_rejected:
  assumes "group_fuel config \<le> fuel"
  shows "(\<exists>r. svn_repos__authz_config_validate fuel config = Some r) \<and>
         svn_repos__authz_config_validate fuel config =
           svn_repos__authz_config_validate (group_fuel config) config \<and>
         (has_group_cycle config \<longrightarrow>
            (\<exists>e. svn_repos__authz_config_validate fuel config = Some (Inl e) \<and>
                 apr_err e = SVN_ERR_AUTHZ_INVALID_CONFIG)) \<and>
         (has_group_cycle config \<and> references_defined config \<and>
          valid_before_groups fuel config \<longrightarrow>
            (\<exists>h g. svn_repos__authz_config_validate fuel config =
                     Some (Inl (Svn_error SVN_ERR_AUTHZ_INVALID_CONFIG
                                  (Circular_dependency h g))) \<and>
                   (g, h) \<in> member_edges config \<and> (h, g) \<in> (member_edges config)\<^sup>*)) \<and>
         (svn_repos__authz_config_validate fuel config =
            Some (Inl (Svn_error c (Circular_dependency h g))) \<longrightarrow>
            (g, h) \<in> member_edges config \<and> (h, g) \<in> (member_edges config)\<^sup>*)"
proof -
  let ?init = "\<lparr>err = None, out_of_fuel = False\<rparr>"
  let ?fin = "svn_config_enumerate_sections2 config (authz_validate_section fuel config) ?init"
  have s: "sound_baton config ?fin"
  proof (rule enumerate_sections_invariant [where P = "sound_baton config"])
    show "sound_baton config \<lparr>err = None, out_of_fuel = False\<rparr>"
      by (simp add: sound_baton_def)
  next
    fix name b
    assume "sound_baton config b"
    then show "sound_baton config (snd (authz_validate_section fuel config name b))"
      by (rule authz_validate_section_sound [OF assms])
  qed
  then have nf: "\<not> out_of_fuel ?fin" by (simp add: sound_baton_def)
  have v: "svn_repos__authz_config_validate fuel config =
             (case err ?fin of Some e \<Rightarrow> Some (Inl e) | None \<Rightarrow> Some (Inr ()))"
    using nf by (simp add: svn_repos__authz_config_validate_def Let_def)
  have 1: "\<exists>r. svn_repos__authz_config_validate fuel config = Some r"
    unfolding v by (simp split: option.splits)
  have "authz_validate_section fuel config = authz_validate_section (group_fuel config) config"
    by (intro ext) (simp add: authz_validate_section_def authz_validate_group_fuel [OF assms])
  then have 2: "svn_repos__authz_config_validate fuel config =
           svn_repos__authz_config_validate (group_fuel config) config"
    by (simp add: svn_repos__authz_config_validate_def)
  have 3: "\<exists>e. svn_repos__authz_config_validate fuel config = Some (Inl e) \<and>
               apr_err e = SVN_ERR_AUTHZ_INVALID_CONFIG"
    if cyc: "has_group_cycle config"
  proof -
    from cyc obtain g0 where g0: "(g0, g0) \<in> (member_edges config)\<^sup>+"
      by (auto simp: has_group_cycle_def)
    from has_group_cycle_entry [OF g0] obtain es where "map_of config ''groups'' = Some es"
      by blast
    then have sec: "(''groups'', es) \<in> set config" by (rule map_of_SomeD)
    have "err ?fin \<noteq> None \<or> out_of_fuel ?fin"
    proof (rule enumerate_sections_stops [OF sec])
      fix name b
      assume "\<not> fst (authz_validate_section fuel config name b)"
      then show "err (snd (authz_validate_section fuel config name b)) \<noteq> None \<or>
                 out_of_fuel (snd (authz_validate_section fuel config name b))"
        by (rule authz_validate_section_stops)
    next
      fix b
      show "\<not> fst (authz_validate_section fuel config ''groups'' b)"
        by (rule authz_validate_section_cycle [OF cyc])
    qed
    with nf obtain e where e: "err ?fin = Some e" by auto
    with s have "apr_err e = SVN_ERR_AUTHZ_INVALID_CONFIG" by (simp add: sound_baton_def)
    with e v show ?thesis by simp
  qed
  have 4: "\<exists>h g. svn_repos__authz_config_validate fuel config =
                     Some (Inl (Svn_error SVN_ERR_AUTHZ_INVALID_CONFIG
                                  (Circular_dependency h g))) \<and>
                   (g, h) \<in> member_edges config \<and> (h, g) \<in> (member_edges config)\<^sup>*"
    if cyc: "has_group_cycle config" and refs: "references_defined config"
      and before: "valid_before_groups fuel config"
  proof -
    from cyc obtain g0 where g0: "(g0, g0) \<in> (member_edges config)\<^sup>+"
      by (auto simp: has_group_cycle_def)
    from has_group_cycle_entry [OF g0] obtain es where "map_of config ''groups'' = Some es"
      by blast
    then have sec: "(''groups'', es) \<in> set config" by (rule map_of_SomeD)
    from authz_validate_groups_circular [OF assms cyc refs] obtain h g where
      g: "authz_validate_section fuel config ''groups'' ?init
            = (False, \<lparr>err = Some (Svn_error SVN_ERR_AUTHZ_INVALID_CONFIG
                                 (Circular_dependency h g)), out_of_fuel = False\<rparr>)"
      and c: "(g, h) \<in> member_edges config \<and> (h, g) \<in> (member_edges config)\<^sup>*"
      by blast
    have "?fin = snd (authz_validate_section fuel config ''groups'' ?init)"
      by (rule sections_stop_at_groups [OF sec])
         (use before g in \<open>simp_all add: valid_before_groups_def\<close>)
    with g have "err ?fin = Some (Svn_error SVN_ERR_AUTHZ_INVALID_CONFIG
                                 (Circular_dependency h g))"
      by simp
    with v c show ?thesis by auto
  qed
  have 5: "(g, h) \<in> member_edges config \<and> (h, g) \<in> (member_edges config)\<^sup>*"
    if "svn_repos__authz_config_validate fuel config =
          Some (Inl (Svn_error c (Circular_dependency h g)))"
  proof -
    from that v have "err ?fin = Some (Svn_error c (Circular_dependency h g))"
      by (simp split: option.splits)
    with s show ?thesis by (simp add: sound_baton_def)
  qed
  from 1 2 3 4 5 show ?thesis by blast
qed

lemma member_edges_a_b:
  "(''a'', ''b'') \<in> member_edges [(''/trunk'', [(''@a'', ''rw'')]),
                                  (''groups'', [(''a'', ''@b''), (''b'', ''@a'')])]"
  "(''b'', ''a'') \<in> member_edges [(''/trunk'', [(''@a'', ''rw'')]),
                                  (''groups'', [(''a'', ''@b''), (''b'', ''@a'')])]"
  by (simp_all add: member_edges_def group_members_def svn_config_get_def svn_cstring_split_def
        chop_whitespace_def svn_ctype_isspace_def)

theorem group_cycle_rejected_witness:
  "group_fuel [(''/trunk'', [(''@a'', ''rw'')]),
               (''groups'', [(''a'', ''@b''), (''b'', ''@a'')])] \<le> 4 \<and>
   has_group_cycle [(''/trunk'', [(''@a'', ''rw'')]),
                    (''groups'', [(''a'', ''@b''), (''b'', ''@a'')])] \<and>
   references_defined [(''/trunk'', [(''@a'', ''rw'')]),
                       (''groups'', [(''a'', ''@b''), (''b'', ''@a'')])] \<and>
   valid_before_groups 4 [(''/trunk'', [(''@a'', ''rw'')]),
                          (''groups'', [(''a'', ''@b''), (''b'', ''@a'')])] \<and>
   svn_repos__authz_config_validate 4
       [(''/trunk'', [(''@a'', ''rw'')]), (''groups'', [(''a'', ''@b''), (''b'', ''@a'')])] =
     Some (Inl (Svn_error SVN_ERR_AUTHZ_INVALID_CONFIG (Circular_dependency ''b'' ''a''))) \<and>
   (''a'', ''b'') \<in> member_edges [(''/trunk'', [(''@a'', ''rw'')]),
                                  (''groups'', [(''a'', ''@b''), (''b'', ''@a'')])] \<and>
   (''b'', ''a'') \<in> (member_edges [(''/trunk'', [(''@a'', ''rw'')]),
                                   (''groups'', [(''a'', ''@b''), (''b'', ''@a'')])])\<^sup>*"
proof -
  let ?c = "[(''/trunk'', [(''@a'', ''rw'')]), (''groups'', [(''a'', ''@b''), (''b'', ''@a'')])]"
  have f: "group_fuel ?c \<le> 4" by (simp add: group_fuel_def)
  have "(''a'', ''a'') \<in> (member_edges ?c)\<^sup>+"
    using member_edges_a_b by (meson trancl.simps)
  then have cyc: "has_group_cycle ?c" by (auto simp: has_group_cycle_def)
  have refs: "references_defined ?c"
    by (auto simp: references_defined_def group_members_def svn_config_get_def
          svn_cstring_split_def chop_whitespace_def svn_ctype_isspace_def
        split: if_splits)
  have before: "valid_before_groups 4 ?c"
    by (simp add: valid_before_groups_def authz_validate_section_def svn_fspath__is_canonical_def
          svn_config_enumerate2_def authz_validate_rule_def svn_config_get_def
          svn_ctype_isspace_def)
  have v: "svn_repos__authz_config_validate 4 ?c =
     Some (Inl (Svn_error SVN_ERR_AUTHZ_INVALID_CONFIG (Circular_dependency ''b'' ''a'')))"
    by (simp add: svn_repos__authz_config_validate_def authz_validate_section_def
          svn_fspath__is_canonical_def authz_validate_rule_def
          svn_config_enumerate2_def authz_validate_group_def svn_config_get_def
          svn_cstring_split_def chop_whitespace_def svn_ctype_isspace_def eval_nat_numeral)
  from group_cycle_rejected [OF f, of SVN_ERR_AUTHZ_INVALID_CONFIG "''b''" "''a''"]
       f cyc refs before v
  show ?thesis by simp
qed

text \<open>
  An error met before the cycle is closed is the one reported. Here the groups \<open>a\<close>
  and \<open>b\<close> depend on each other, and \<open>a\<close> first refers to a group that is not
  defined: whichever of the two entries the enumeration visits first, the walk reaches
  the undefined group before it comes back to a checked group, and the validation fails
  with the error of the undefined group, which names neither \<open>a\<close> nor \<open>b\<close>.
\<close>

theorem cycle_not_named_counterexample:
  "has_group_cycle [(''groups'', [(''a'', ''@nope, @b''), (''b'', ''@a'')])] \<and>
   svn_repos__authz_config_validate 4
       [(''groups'', [(''a'', ''@nope, @b''), (''b'', ''@a'')])] =
     Some (Inl (Svn_error SVN_ERR_AUTHZ_INVALID_CONFIG (Undefined_group ''nope''))) \<and>
   has_group_cycle [(''groups'', [(''b'', ''@a''), (''a'', ''@nope, @b'')])] \<and>
   svn_repos__authz_config_validate 4
       [(''groups'', [(''b'', ''@a''), (''a'', ''@nope, @b'')])] =
     Some (Inl (Svn_error SVN_ERR_AUTHZ_INVALID_CONFIG (Undefined_group ''nope'')))"
proof -
  let ?c = "[(''groups'', [(''a'', ''@nope, @b''), (''b'', ''@a'')])]"
  let ?d = "[(''groups'', [(''b'', ''@a''), (''a'', ''@nope, @b'')])]"
  have "(''a'', ''b'') \<in> member_edges ?c" "(''b'', ''a'') \<in> member_edges ?c"
    by (simp_all add: member_edges_def group_members_def svn_config_get_def
          svn_cstring_split_def chop_whitespace_def svn_ctype_isspace_def)
  then have "(''a'', ''a'') \<in> (member_edges ?c)\<^sup>+" by (meson trancl.simps)
  then have c: "has_group_cycle ?c" by (auto simp: has_group_cycle_def)
  have "(''a'', ''b'') \<in> member_edges ?d" "(''b'', ''a'') \<in> member_edges ?d"
    by (simp_all add: member_edges_def group_members_def svn_config_get_def
          svn_cstring_split_def chop_whitespace_def svn_ctype_isspace_def)
  then have "(''a'', ''a'') \<in> (member_edges ?d)\<^sup>+" by (meson trancl.simps)
  then have d: "has_group_cycle ?d" by (auto simp: has_group_cycle_def)
  have vc: "svn_repos__authz_config_validate 4 ?c =
     Some (Inl (Svn_error SVN_ERR_AUTHZ_INVALID_CONFIG (Undefined_group ''nope'')))"
    by (simp add: svn_repos__authz_config_validate_def authz_validate_section_def
          svn_config_enumerate2_def authz_validate_group_def svn_config_get_def
          svn_cstring_split_def chop_whitespace_def svn_ctype_isspace_def eval_nat_numeral)
  have vd: "svn_repos__authz_config_validate 4 ?d =
     Some (Inl (Svn_error SVN_ERR_AUTHZ_INVALID_CONFIG (Undefined_group ''nope'')))"
    by (simp add: svn_repos__authz_config_validate_def authz_validate_section_def
          svn_config_enumerate2_def authz_validate_group_def svn_config_get_def
          svn_cstring_split_def chop_whitespace_def svn_ctype_isspace_def eval_nat_numeral)
  from c d vc vd show ?thesis by simp
qed

end
